theory Spec2Isabelle
  imports Complex_Main "HOL-Library.Char_ord" "HOL-Library.List_Lexorder" "HOL-Library.Multiset"
begin

section \<open>ICR match audit: classification of scored candidates\<close>

text \<open>
  Model of the matching logic of \<open>search_icr\<close> in \<open>icr_match_audit.py\<close>
  (the part after the query loop). A candidate is the dictionary built from one API
  item; \<open>scored\<close> is the list of candidates paired with the score computed for each
  (the rounded maximum of the two similarity ratios). Python floats are read as real
  numbers.
\<close>

record candidate =
  scientific_name :: string
  accepted_name :: string
  cand_status :: string
  detail_url :: string

type_synonym scored = "candidate \<times> real"

datatype match_status = Exact | Fuzzy_match | Ambiguous | No_match | Error_status

record audit_result =
  input_name :: string
  status :: match_status
  error :: "string option"
  candidates :: "scored list"
  best_match :: "candidate option"
  confidence :: real
  queries_tried :: "string list"

text \<open>\<open>scored.sort(key=lambda x: x["score"], reverse=True)\<close>: a stable sort, descending.\<close>

definition sort_desc :: "scored list \<Rightarrow> scored list" where
  "sort_desc xs = sort_key (\<lambda>x. - snd x) xs"

text \<open>The \<open>if/elif/else\<close> on the top score; \<open>rest\<close> is \<open>scored[1:]\<close>.\<close>

definition tier :: "real \<Rightarrow> scored list \<Rightarrow> match_status" where
  "tier top_score rest =
     (if top_score \<ge> 0.95 then Exact
      else if top_score \<ge> 0.6 then
        (if rest \<noteq> [] \<and> snd (hd rest) \<ge> top_score - 0.05 then Ambiguous
         else Fuzzy_match)
      else No_match)"

text \<open>
  \<open>search_icr\<close> from \<open>if not all_candidates\<close> on: \<open>score_of\<close> stands for the
  scoring of one candidate against the input name.
\<close>

definition search_icr_match ::
  "(candidate \<Rightarrow> real) \<Rightarrow> string \<Rightarrow> string list \<Rightarrow> candidate list \<Rightarrow> audit_result" where
  "search_icr_match score_of name tried all_candidates =
     (if all_candidates = [] then
        \<lparr>input_name = name, status = No_match, error = None, candidates = [],
         best_match = None, confidence = 0, queries_tried = tried\<rparr>
      else
        (let scored = sort_desc (map (\<lambda>c. (c, score_of c)) all_candidates);
             top = hd scored;
             st = tier (snd top) (tl scored)
         in \<lparr>input_name = name, status = st, error = None, candidates = take 10 scored,
             best_match = (if st \<in> {Exact, Fuzzy_match, Ambiguous} then Some (fst top) else None),
             confidence = snd top, queries_tried = tried\<rparr>))"


text \<open>
  The loop of \<open>main\<close> in \<open>icr_match_audit.py\<close>. \<open>search\<close> is \<open>search_icr\<close> as a
  function of the name; \<open>completed\<close> is the progress dictionary, saved after every
  query; \<open>searched\<close> records the names that were queried, in order. The pause
  between names and the report files are left out.
\<close>

record audit_state =
  completed :: "string \<rightharpoonup> audit_result"
  searched :: "string list"

fun audit_loop :: "(string \<Rightarrow> audit_result) \<Rightarrow> string list \<Rightarrow> audit_state \<Rightarrow> audit_state" where
  "audit_loop search [] s = s"
| "audit_loop search (name # names) s =
     (if completed s name \<noteq> None then audit_loop search names s
      else audit_loop search names
             (s\<lparr>completed := (completed s)(name \<mapsto> search name),
                searched := searched s @ [name]\<rparr>))"

text \<open>\<open>load_progress\<close> followed by the loop: a run of \<open>main\<close> on a progress file.\<close>

definition audit_main ::
  "(string \<Rightarrow> audit_result) \<Rightarrow> string list \<Rightarrow> (string \<rightharpoonup> audit_result) \<Rightarrow> audit_state" where
  "audit_main search names progress =
     audit_loop search names \<lparr>completed = progress, searched = []\<rparr>"

section \<open>Chinese-name enrichment: probe, checkpoint and loop\<close>

text \<open>
  Exceptions are values. The first three classes derive from Python's \<open>Exception\<close>;
  \<open>Base_exception\<close> stands for the others (\<open>KeyboardInterrupt\<close>, \<open>SystemExit\<close>,
  a cancelled task). Each carries \<open>str(e)\<close>.
\<close>

datatype exn =
  Timeout_error string | Client_error string | Other_exception string | Base_exception string

fun exn_str :: "exn \<Rightarrow> string" where
  "exn_str (Timeout_error m) = m"
| "exn_str (Client_error m) = m"
| "exn_str (Other_exception m) = m"
| "exn_str (Base_exception m) = m"

fun is_Exception :: "exn \<Rightarrow> bool" where
  "is_Exception (Base_exception m) = False"
| "is_Exception e = True"

record url_result =
  chinese_name :: "string list"
  url_status :: string
  http_status :: "int option"
  url_error :: string
  fetched_at :: string

datatype http_outcome = Raised exn | Response int string

text \<open>
  The world outside the program: what a GET dispatched at a given time returns and how
  long it takes, the clock's text form, the page scraper \<open>extract_chinese_names\<close>
  (regular expressions over HTML, taken as a function of the page text), and the
  clean-up \<open>load_url_cache\<close> applies to every stored entry when it reads the cache
  file back.
\<close>

record env =
  http_get :: "real \<Rightarrow> string \<Rightarrow> http_outcome"
  latency :: "real \<Rightarrow> string \<Rightarrow> real"
  now_iso :: "real \<Rightarrow> string"
  extract_chinese_names :: "string \<Rightarrow> string list"
  reload :: "url_result \<Rightarrow> url_result"

text \<open>Decimal text of a status code, for \<open>f"HTTP {resp.status_code}"\<close>.\<close>

fun str_nat :: "nat \<Rightarrow> string" where
  "str_nat n =
     (if n < 10 then [''0123456789'' ! n] else str_nat (n div 10) @ [''0123456789'' ! (n mod 10)])"

definition str_int :: "int \<Rightarrow> string" where
  "str_int i = (if i < 0 then CHR ''-'' # str_nat (nat (- i)) else str_nat (nat i))"

text \<open>
  \<open>fetch_one\<close>, dispatched at time \<open>t\<close>; the request returns at \<open>t + latency\<close>, which
  is when \<open>now_iso()\<close> is read. \<open>except Exception\<close> lets a \<open>Base_exception\<close> through.
\<close>

definition fetch_one :: "env \<Rightarrow> real \<Rightarrow> string \<Rightarrow> exn + url_result" where
  "fetch_one e t url =
     (let now = now_iso e (t + latency e t url) in
      case http_get e t url of
        Raised x \<Rightarrow>
          (if is_Exception x then
             Inr \<lparr>chinese_name = [], url_status = ''failed'', http_status = None,
                  url_error = exn_str x, fetched_at = now\<rparr>
           else Inl x)
      | Response status_code text \<Rightarrow>
          (if status_code \<noteq> 200 then
             Inr \<lparr>chinese_name = [], url_status = ''failed'', http_status = Some status_code,
                  url_error = ''HTTP '' @ str_int status_code, fetched_at = now\<rparr>
           else
             (let names = extract_chinese_names e text in
              if names \<noteq> [] then
                Inr \<lparr>chinese_name = names, url_status = ''ok'', http_status = Some status_code,
                     url_error = [], fetched_at = now\<rparr>
              else
                Inr \<lparr>chinese_name = [], url_status = ''missing'', http_status = Some status_code,
                     url_error = [], fetched_at = now\<rparr>)))"


text \<open>
  A checkpoint is a JSON object; a key may be absent, so every field is optional.
  A mirror file is absent, unreadable (\<open>load_json\<close> raises, or the content is not
  an object), or holds a checkpoint. Stored numbers are taken to be of the right type.
\<close>

record cp_dict =
  created_at :: "string option"
  updated_at :: "string option"
  total_urls :: "nat option"
  next_index :: "int option"
  last_request_ts :: "real option"

datatype cp_file = Absent | Unreadable | Stored cp_dict

text \<open>\<open>cp.get(key, default)\<close> for the keys that are read.\<close>

definition get_next_index :: "cp_dict \<Rightarrow> int" where
  "get_next_index cp = (case next_index cp of None \<Rightarrow> 0 | Some n \<Rightarrow> n)"

definition get_last_request_ts :: "cp_dict \<Rightarrow> real" where
  "get_last_request_ts cp = (case last_request_ts cp of None \<Rightarrow> 0 | Some t \<Rightarrow> t)"

definition get_updated_at :: "cp_dict \<Rightarrow> string" where
  "get_updated_at cp = (case updated_at cp of None \<Rightarrow> [] | Some u \<Rightarrow> u)"

text \<open>
  \<open>cp["total_urls"] = total_urls; cp.setdefault("next_index", 0);
  cp.setdefault("last_request_ts", 0.0)\<close>.
\<close>

definition with_defaults :: "nat \<Rightarrow> cp_dict \<Rightarrow> cp_dict" where
  "with_defaults tot cp =
     cp\<lparr>total_urls := Some tot,
        next_index := Some (get_next_index cp),
        last_request_ts := Some (get_last_request_ts cp)\<rparr>"

definition fresh_checkpoint :: "string \<Rightarrow> nat \<Rightarrow> cp_dict" where
  "fresh_checkpoint now tot =
     \<lparr>created_at = Some now, updated_at = Some now, total_urls = Some tot,
      next_index = Some 0, last_request_ts = Some 0\<rparr>"

definition load_checkpoint :: "string \<Rightarrow> cp_file \<Rightarrow> nat \<Rightarrow> bool \<Rightarrow> exn + cp_dict" where
  "load_checkpoint now file tot reset =
     (if \<not> reset \<and> file \<noteq> Absent then
        (case file of
           Stored cp \<Rightarrow> Inr (with_defaults tot cp)
         | _ \<Rightarrow> Inl (Other_exception ''load_json''))
      else Inr (with_defaults tot (fresh_checkpoint now tot)))"

text \<open>\<open>paths[0]\<close> raises \<open>IndexError\<close> on an empty list.\<close>

definition first_path :: "cp_file list \<Rightarrow> exn + cp_file" where
  "first_path files =
     (case files of [] \<Rightarrow> Inl (Other_exception ''list index out of range'') | f # _ \<Rightarrow> Inr f)"

text \<open>The loop that collects the readable mirrors.\<close>

fun readable :: "nat \<Rightarrow> cp_file list \<Rightarrow> cp_dict list" where
  "readable tot [] = []"
| "readable tot (Stored cp # files) = with_defaults tot cp # readable tot files"
| "readable tot (_ # files) = readable tot files"

text \<open>
  The sort key \<open>(int(next_index), str(updated_at))\<close>. Python compares tuples
  lexicographically and strings by code point.
\<close>

definition key :: "cp_dict \<Rightarrow> int \<times> string" where
  "key cp = (get_next_index cp, get_updated_at cp)"

definition key_less :: "int \<times> string \<Rightarrow> int \<times> string \<Rightarrow> bool" where
  "key_less a b = (fst a < fst b \<or> (fst a = fst b \<and> snd a < snd b))"

text \<open>\<open>max(candidates, key=key)\<close>: the first candidate whose key no other exceeds.\<close>

fun max_from :: "cp_dict \<Rightarrow> cp_dict list \<Rightarrow> cp_dict" where
  "max_from best [] = best"
| "max_from best (c # cs) = max_from (if key_less (key best) (key c) then c else best) cs"

definition load_best_checkpoint :: "string \<Rightarrow> cp_file list \<Rightarrow> nat \<Rightarrow> bool \<Rightarrow> exn + cp_dict" where
  "load_best_checkpoint now files tot reset =
     (if reset then
        (case first_path files of Inl x \<Rightarrow> Inl x
         | Inr f \<Rightarrow> load_checkpoint now f tot True)
      else
        (case readable tot files of
           [] \<Rightarrow>
             (case first_path files of Inl x \<Rightarrow> Inl x
              | Inr f \<Rightarrow> load_checkpoint now f tot True)
         | c # cs \<Rightarrow> Inr (max_from c cs)))"

text \<open>
  \<open>load_url_cache\<close>: empty on a fresh run or when the file is missing, otherwise
  every stored entry after its clean-up.
\<close>

definition load_url_cache ::
  "env \<Rightarrow> (string \<rightharpoonup> url_result) option \<Rightarrow> bool \<Rightarrow> (string \<rightharpoonup> url_result)" where
  "load_url_cache e file reset =
     (case file of
        None \<Rightarrow> Map.empty
      | Some raw \<Rightarrow> if reset then Map.empty else (\<lambda>u. map_option (reload e) (raw u)))"

record args =
  delay :: real
  timeout :: int
  max_urls :: int
  resume :: bool

record payload =
  p_index :: nat
  p_total :: nat
  p_url :: string
  p_result :: url_result

text \<open>
  The state of a run of \<open>main\<close> in \<open>enrich_icr_chinese_name.py\<close>: the loop's
  variables, the clock, the files it writes, and two records of what it did
  (\<open>saves\<close>: every checkpoint written, in order; \<open>requests\<close>: the dispatch time and
  URL of every GET). Only network requests and sleeping take time.
\<close>

record enrich_state =
  idx :: nat
  processed_this_run :: nat
  checkpoint :: cp_dict
  cache :: "string \<rightharpoonup> url_result"
  clock :: real
  cp_files :: "cp_file list"
  cache_file :: "(string \<rightharpoonup> url_result) option"
  processed_log :: "payload list"
  failed_log :: "payload list"
  saves :: "cp_dict list"
  requests :: "(real \<times> string) list"

definition save_checkpoints :: "env \<Rightarrow> enrich_state \<Rightarrow> enrich_state" where
  "save_checkpoints e s =
     (let cp = (checkpoint s)\<lparr>updated_at := Some (now_iso e (clock s))\<rparr>
      in s\<lparr>checkpoint := cp, cp_files := map (\<lambda>_. Stored cp) (cp_files s),
            saves := saves s @ [cp]\<rparr>)"

definition save_url_cache :: "enrich_state \<Rightarrow> enrich_state" where
  "save_url_cache s = s\<lparr>cache_file := Some (cache s)\<rparr>"

text \<open>\<open>limit is not None and processed_this_run >= limit\<close>.\<close>

definition limit_reached :: "args \<Rightarrow> enrich_state \<Rightarrow> bool" where
  "limit_reached a s = (max_urls a > 0 \<and> int (processed_this_run s) \<ge> max_urls a)"

text \<open>The cache lookup or the paced request of one iteration.\<close>

definition probe :: "env \<Rightarrow> args \<Rightarrow> string \<Rightarrow> enrich_state \<Rightarrow> exn + (url_result \<times> enrich_state)" where
  "probe e a url s =
     (case cache s url of
        Some r \<Rightarrow> Inr (r, s)
      | None \<Rightarrow>
          (let elapsed = clock s - get_last_request_ts (checkpoint s);
               t = (if elapsed < delay a then clock s + (delay a - elapsed) else clock s);
               t_done = t + latency e t url
           in case fetch_one e t url of
                Inl x \<Rightarrow> Inl x
              | Inr r \<Rightarrow>
                  Inr (r, s\<lparr>clock := t_done,
                            checkpoint := (checkpoint s)\<lparr>last_request_ts := Some t_done\<rparr>,
                            cache := (cache s)(url \<mapsto> r),
                            requests := requests s @ [(t, url)]\<rparr>)))"

text \<open>One iteration of the \<open>while\<close> loop, for \<open>idx s < length urls\<close>.\<close>

definition step :: "env \<Rightarrow> args \<Rightarrow> string list \<Rightarrow> enrich_state \<Rightarrow> exn + enrich_state" where
  "step e a urls s =
     (let url = urls ! idx s in
      case probe e a url s of
        Inl x \<Rightarrow> Inl x
      | Inr (r, s1) \<Rightarrow>
          (let p = \<lparr>p_index = idx s, p_total = length urls, p_url = url, p_result = r\<rparr>;
               s2 = s1\<lparr>processed_log := processed_log s1 @ [p],
                       failed_log := (if url_status r = ''failed'' then failed_log s1 @ [p]
                                      else failed_log s1)\<rparr>;
               i = idx s + 1;
               s3 = s2\<lparr>idx := i, processed_this_run := processed_this_run s2 + 1,
                       checkpoint := (checkpoint s2)\<lparr>next_index := Some (int i)\<rparr>\<rparr>
           in Inr (save_url_cache (save_checkpoints e s3))))"


text \<open>The \<open>while i < total\<close> loop with its \<open>break\<close> on the limit.\<close>

function enrich_loop :: "env \<Rightarrow> args \<Rightarrow> string list \<Rightarrow> enrich_state \<Rightarrow> exn + enrich_state" where
  "enrich_loop e a urls s =
     (if idx s < length urls \<and> \<not> limit_reached a s then
        (case step e a urls s of
           Inl x \<Rightarrow> Inl x
         | Inr s' \<Rightarrow> enrich_loop e a urls s')
      else Inr s)"
  by pat_completeness auto
termination
proof (relation "measure (\<lambda>(e, a, urls, s). length urls - idx s)")
  show "wf (measure (\<lambda>(e, a, urls, s). length urls - idx s))"
    by simp
next
  fix e :: env and a :: args and urls :: "string list" and s s' :: enrich_state
  assume run: "idx s < length urls \<and> \<not> limit_reached a s" and st: "step e a urls s = Inr s'"
  from st have "idx s' = idx s + 1"
    by (auto simp: step_def Let_def save_url_cache_def save_checkpoints_def
             split: sum.splits prod.splits)
  moreover from run have "idx s < length urls" ..
  ultimately show "((e, a, urls, s'), (e, a, urls, s)) \<in> measure (\<lambda>(e, a, urls, s). length urls - idx s)"
    by simp
qed

declare enrich_loop.simps [simp del]

text \<open>
  \<open>main\<close> before the loop, started at time \<open>t0\<close> on the mirror files \<open>files\<close> and
  the cache file \<open>cfile\<close> (\<open>None\<close>: no file), for the URL list
  \<open>collect_unique_icr_urls\<close> returned: load the best checkpoint and the cache, reset
  the index on a fresh run, save the checkpoint, clamp the index on a resume, and
  set \<open>i\<close>.
\<close>

definition startup ::
  "env \<Rightarrow> args \<Rightarrow> string list \<Rightarrow> real \<Rightarrow> cp_file list \<Rightarrow> (string \<rightharpoonup> url_result) option
   \<Rightarrow> exn + enrich_state" where
  "startup e a urls t0 files cfile =
     (let tot = length urls; reset = \<not> resume a in
      case load_best_checkpoint (now_iso e t0) files tot reset of
        Inl x \<Rightarrow> Inl x
      | Inr cp0 \<Rightarrow>
          (let cache0 = load_url_cache e cfile reset;
               cp1 = (if reset then cp0\<lparr>next_index := Some 0\<rparr> else cp0);
               s0 = save_checkpoints e
                      \<lparr>idx = 0, processed_this_run = 0, checkpoint = cp1, cache = cache0,
                       clock = t0, cp_files = files, cache_file = cfile,
                       processed_log = [], failed_log = [], saves = [], requests = []\<rparr>;
               cp2 = (if resume a then
                        (checkpoint s0)\<lparr>next_index :=
                           Some (max 0 (min (get_next_index (checkpoint s0)) (int tot)))\<rparr>
                      else checkpoint s0)
           in Inr (s0\<lparr>checkpoint := cp2, idx := nat (get_next_index cp2)\<rparr>)))"

text \<open>\<open>main\<close> up to the end of the loop.\<close>

definition enrich_main ::
  "env \<Rightarrow> args \<Rightarrow> string list \<Rightarrow> real \<Rightarrow> cp_file list \<Rightarrow> (string \<rightharpoonup> url_result) option
   \<Rightarrow> exn + enrich_state" where
  "enrich_main e a urls t0 files cfile =
     (case startup e a urls t0 files cfile of
        Inl x \<Rightarrow> Inl x
      | Inr s \<Rightarrow> enrich_loop e a urls s)"

section \<open>ACS link audit: URL check and fix application\<close>

text \<open>
  What \<open>session.get\<close> does for \<open>check_url\<close>: it raises, or answers with a status,
  an optional Content-Length header and a body whose reading may raise in turn.
\<close>

datatype acs_outcome = Acs_raised exn | Acs_response int "nat option" "exn + string"

record check_result =
  cr_status :: "int option"
  content_length :: nat
  valid :: bool
  cr_error :: "string option"

text \<open>The three \<open>except\<close> clauses of \<open>check_url\<close>, in order.\<close>

fun on_exception :: "exn \<Rightarrow> exn + check_result" where
  "on_exception (Timeout_error m) =
     Inr \<lparr>cr_status = None, content_length = 0, valid = False, cr_error = Some ''timeout''\<rparr>"
| "on_exception (Client_error m) =
     Inr \<lparr>cr_status = None, content_length = 0, valid = False, cr_error = Some m\<rparr>"
| "on_exception (Other_exception m) =
     Inr \<lparr>cr_status = None, content_length = 0, valid = False, cr_error = Some m\<rparr>"
| "on_exception (Base_exception m) = Inl (Base_exception m)"

definition check_url :: "(string \<Rightarrow> acs_outcome) \<Rightarrow> string \<Rightarrow> exn + check_result" where
  "check_url get url =
     (case get url of
        Acs_raised x \<Rightarrow> on_exception x
      | Acs_response st header body \<Rightarrow>
          (case header of
             Some n \<Rightarrow>
               Inr \<lparr>cr_status = Some st, content_length = n, valid = (st = 200 \<and> n > 0),
                    cr_error = None\<rparr>
           | None \<Rightarrow>
               (case body of
                  Inl x \<Rightarrow> on_exception x
                | Inr b \<Rightarrow>
                    Inr \<lparr>cr_status = Some st, content_length = length b,
                         valid = (st = 200 \<and> length b > 0), cr_error = None\<rparr>)))"

text \<open>
  A dataset entry: its name, its \<open>acs_url\<close> (\<open>None\<close> is JSON null) and all its other
  fields. An audit result and a recovery result with the keys \<open>apply_fixes\<close> reads.
\<close>

record entry =
  entry_name :: string
  acs_url :: "string option"
  other_fields :: "(string \<times> string) list"

record audit =
  action :: string
  original_url :: string
  audit_error :: "string option"
  audit_status :: "int option"

record recovery =
  recovered :: bool
  new_url :: "string option"
  recovery_method :: "string option"

record fixed_item =
  fixed_name :: string
  fixed_old_url :: string
  fixed_new_url :: "string option"
  fixed_method :: "string option"

record cleared_item =
  cleared_name :: string
  cleared_old_url :: string
  cleared_error :: "string option"
  cleared_http_status :: "int option"

text \<open>
  \<open>{e["name"]: i for i, e in enumerate(data)}\<close>: a later entry of the same name
  replaces an earlier one.
\<close>

fun name_to_idx_from :: "nat \<Rightarrow> entry list \<Rightarrow> (string \<rightharpoonup> nat) \<Rightarrow> (string \<rightharpoonup> nat)" where
  "name_to_idx_from i [] m = m"
| "name_to_idx_from i (x # xs) m = name_to_idx_from (Suc i) xs (m(entry_name x \<mapsto> i))"

definition name_to_idx :: "entry list \<Rightarrow> (string \<rightharpoonup> nat)" where
  "name_to_idx data = name_to_idx_from 0 data Map.empty"

text \<open>\<open>recovery_results.get(name, {})\<close> read through \<open>rec.get("recovered")\<close>.\<close>

definition get_recovery :: "(string \<rightharpoonup> recovery) \<Rightarrow> string \<Rightarrow> recovery" where
  "get_recovery recovery_results n =
     (case recovery_results n of
        None \<Rightarrow> \<lparr>recovered = False, new_url = None, recovery_method = None\<rparr>
      | Some r \<Rightarrow> r)"

text \<open>
  The loop of \<open>apply_fixes\<close> over \<open>audit_results.items()\<close> (a dictionary in
  insertion order, here the list of its items), threading the dataset and the two
  report lists.
\<close>

fun apply_loop ::
  "(string \<rightharpoonup> nat) \<Rightarrow> (string \<rightharpoonup> recovery) \<Rightarrow> (string \<times> audit) list
   \<Rightarrow> entry list \<times> fixed_item list \<times> cleared_item list
   \<Rightarrow> entry list \<times> fixed_item list \<times> cleared_item list" where
  "apply_loop idx_of rr [] acc = acc"
| "apply_loop idx_of rr ((n, a) # items) (data, fixed, cleared) =
     (if action a \<noteq> ''needs_fix'' then apply_loop idx_of rr items (data, fixed, cleared)
      else
        (case idx_of n of
           None \<Rightarrow> apply_loop idx_of rr items (data, fixed, cleared)
         | Some i \<Rightarrow>
             (let r = get_recovery rr n in
              if recovered r then
                apply_loop idx_of rr items
                  (data[i := (data ! i)\<lparr>acs_url := new_url r\<rparr>],
                   fixed @ [\<lparr>fixed_name = n, fixed_old_url = original_url a,
                             fixed_new_url = new_url r, fixed_method = recovery_method r\<rparr>],
                   cleared)
              else
                apply_loop idx_of rr items
                  (data[i := (data ! i)\<lparr>acs_url := None\<rparr>],
                   fixed,
                   cleared @ [\<lparr>cleared_name = n, cleared_old_url = original_url a,
                               cleared_error = audit_error a,
                               cleared_http_status = audit_status a\<rparr>]))))"

definition apply_fixes ::
  "entry list \<Rightarrow> (string \<times> audit) list \<Rightarrow> (string \<rightharpoonup> recovery)
   \<Rightarrow> entry list \<times> fixed_item list \<times> cleared_item list" where
  "apply_fixes data audit_results recovery_results =
     apply_loop (name_to_idx data) recovery_results audit_results (data, [], [])"


section \<open>Strict image enrichment: the four sources and the chain\<close>

text \<open>
  Names are ASCII strings. \<open>lower_str\<close> and \<open>strip_str\<close> are \<open>str.lower\<close> and
  \<open>str.strip\<close> on such strings, \<open>quote\<close> is \<open>urllib.parse.quote\<close> with its
  default safe character \<open>/\<close>.
\<close>

definition is_upper :: "char \<Rightarrow> bool" where
  "is_upper c = (CHR ''A'' \<le> c \<and> c \<le> CHR ''Z'')"

definition is_lower :: "char \<Rightarrow> bool" where
  "is_lower c = (CHR ''a'' \<le> c \<and> c \<le> CHR ''z'')"

definition is_digit :: "char \<Rightarrow> bool" where
  "is_digit c = (CHR ''0'' \<le> c \<and> c \<le> CHR ''9'')"

definition is_word :: "char \<Rightarrow> bool" where
  "is_word c = (is_upper c \<or> is_lower c \<or> is_digit c \<or> c = CHR ''_'')"

definition is_space :: "char \<Rightarrow> bool" where
  "is_space c = (c = CHR '' '' \<or> (CHR 0x09 \<le> c \<and> c \<le> CHR 0x0D) \<or> (CHR 0x1C \<le> c \<and> c \<le> CHR 0x1F))"

definition lower_char :: "char \<Rightarrow> char" where
  "lower_char c =
     (if is_upper c then ''abcdefghijklmnopqrstuvwxyz'' ! (of_char c - (65 :: nat)) else c)"

definition lower_str :: "string \<Rightarrow> string" where
  "lower_str s = map lower_char s"

definition strip_str :: "string \<Rightarrow> string" where
  "strip_str s = rev (dropWhile is_space (rev (dropWhile is_space s)))"

definition hex_digit :: "nat \<Rightarrow> char" where
  "hex_digit n = ''0123456789ABCDEF'' ! n"

definition quote :: "string \<Rightarrow> string" where
  "quote s =
     concat (map (\<lambda>c. if is_upper c \<or> is_lower c \<or> is_digit c \<or> c \<in> set ''_.-~/'' then [c]
                       else [CHR ''%'', hex_digit (of_char c div 16), hex_digit (of_char c mod 16)]) s)"

text \<open>
  \<open>normalize_name\<close>: \<open>re.sub(r"'([A-Z])\b", ...)\<close> lowers a capital that follows an
  apostrophe and ends a word. Matches are found left to right and do not overlap.
\<close>

fun normalize_name :: "string \<Rightarrow> string" where
  "normalize_name (a # c # rest) =
     (if a = CHR 0x27 \<and> is_upper c \<and> (rest = [] \<or> \<not> is_word (hd rest))
      then a # lower_char c # normalize_name rest
      else a # normalize_name (c # rest))"
| "normalize_name s = s"

text \<open>\<open>dict.fromkeys([norm, name])\<close>: both names, once each, in order.\<close>

definition try_names :: "string \<Rightarrow> string \<Rightarrow> string list" where
  "try_names normed name = (if normed = name then [normed] else [normed, name])"

definition SOCAL_BASE :: string where
  "SOCAL_BASE = ''https://www.atlanticcoastcamelliasociety.org/Camelliae%20Floris%20Bibliotheca/images/''"

definition ACCS_BASE_IMG :: string where
  "ACCS_BASE_IMG = ''https://www.atlanticcoastcamelliasociety.org/Camelliae%20Floris%20Bibliotheca/''"

definition ICR_DELAY :: real where
  "ICR_DELAY = 8"

text \<open>
  A request is a HEAD of a SoCal image URL, a search POST for a name, a GET of an ACS
  page, or a GET of the ICR photo API for a name. A reply is a value, or \<open>Failed\<close>
  when the call raises an \<open>Exception\<close> (every \<open>try\<close> here catches it the same way).
\<close>

datatype request = Socal_head string | Accs_post string | Acs_get string | Icr_get string

datatype 'a reply = Failed | Reply 'a

record photo =
  is_default_photo :: bool
  image_url :: string

text \<open>
  The sources: the three lookup tables loaded from disk (a cached value is a URL or
  JSON null), and what the network answers to a request dispatched at a given time:
  the status of a HEAD, the \<open>(src, alt)\<close> pairs or the image sources the regular
  expression finds in a page, the status and the decoded photo list of an API answer,
  and how long the request takes.
\<close>

record sources =
  socal_cache :: "string \<rightharpoonup> string option"
  icr_cache :: "string \<rightharpoonup> string option"
  acs_index :: "string \<rightharpoonup> string \<times> string"
  socal_head :: "real \<Rightarrow> string \<Rightarrow> int reply"
  accs_post :: "real \<Rightarrow> string \<Rightarrow> (string \<times> string) list reply"
  acs_get :: "real \<Rightarrow> string \<Rightarrow> string list reply"
  icr_get :: "real \<Rightarrow> string \<Rightarrow> (int \<times> photo list reply) reply"
  duration :: "real \<Rightarrow> request \<Rightarrow> real"

text \<open>
  The mutable world of a run: the clock, the module variable \<open>_last_icr_time\<close>, the
  requests sent with their dispatch times, and the source functions entered.
\<close>

record world =
  time :: real
  last_icr_time :: real
  net_log :: "(request \<times> real) list"
  invoked :: "string list"

definition dispatch :: "sources \<Rightarrow> request \<Rightarrow> world \<Rightarrow> world" where
  "dispatch src rq w =
     w\<lparr>net_log := net_log w @ [(rq, time w)], time := time w + duration src (time w) rq\<rparr>"

definition enter :: "string \<Rightarrow> world \<Rightarrow> world" where
  "enter tag w = w\<lparr>invoked := invoked w @ [tag]\<rparr>"

text \<open>Python truthiness of a value that is a string or \<open>None\<close>, \<open>dict.get\<close> and \<open>or\<close>.\<close>

definition truthy :: "string option \<Rightarrow> bool" where
  "truthy v = (case v of None \<Rightarrow> False | Some s \<Rightarrow> s \<noteq> [])"

definition cache_get :: "(string \<rightharpoonup> string option) \<Rightarrow> string \<Rightarrow> string option" where
  "cache_get c k = (case c k of None \<Rightarrow> None | Some v \<Rightarrow> v)"

definition py_or :: "string option \<Rightarrow> string option \<Rightarrow> string option" where
  "py_or a b = (if truthy a then a else b)"

definition cached_url :: "(string \<rightharpoonup> string option) \<Rightarrow> string \<Rightarrow> string option" where
  "cached_url c name =
     py_or (cache_get c (strip_str (lower_str (normalize_name name))))
           (cache_get c (strip_str (lower_str name)))"

type_synonym found = "string option \<times> string option"

subsection \<open>Source 1: SoCal\<close>

fun socal_live :: "sources \<Rightarrow> string list \<Rightarrow> world \<Rightarrow> found \<times> world" where
  "socal_live src [] w = ((None, None), w)"
| "socal_live src (try_name # others) w =
     (let url = SOCAL_BASE @ quote (try_name @ ''.jpg'');
          w1 = dispatch src (Socal_head url) w
      in case socal_head src (time w) url of
           Reply st \<Rightarrow> if st = 200 then ((Some url, Some ''socal''), w1) else socal_live src others w1
         | Failed \<Rightarrow> socal_live src others w1)"

definition try_socal :: "sources \<Rightarrow> string \<Rightarrow> world \<Rightarrow> found \<times> world" where
  "try_socal src name w =
     (let w0 = enter ''socal'' w; cached = cached_url (socal_cache src) name
      in if truthy cached then ((cached, Some ''socal''), w0)
         else socal_live src (try_names (normalize_name name) name) w0)"

subsection \<open>Source 2: ACCS search\<close>

definition replace_spaces :: "string \<Rightarrow> string" where
  "replace_spaces s = concat (map (\<lambda>c. if c = CHR '' '' then ''%20'' else [c]) s)"

fun accs_live :: "sources \<Rightarrow> string list \<Rightarrow> world \<Rightarrow> found \<times> world" where
  "accs_live src [] w = ((None, None), w)"
| "accs_live src (try_name # others) w =
     (let w1 = dispatch src (Accs_post try_name) w
      in case accs_post src (time w) try_name of
           Failed \<Rightarrow> accs_live src others w1
         | Reply imgs \<Rightarrow>
             if imgs = [] then accs_live src others w1
             else
               (case find (\<lambda>(s, alt). strip_str (lower_str alt) = strip_str (lower_str try_name)) imgs of
                  Some (s, alt) \<Rightarrow> ((Some (ACCS_BASE_IMG @ replace_spaces s), Some ''accs''), w1)
                | None \<Rightarrow> ((Some ''AMBIGUOUS'', None), w1)))"

definition try_accs_search :: "sources \<Rightarrow> string \<Rightarrow> world \<Rightarrow> found \<times> world" where
  "try_accs_search src name w =
     accs_live src (try_names (normalize_name name) name) (enter ''accs'' w)"


subsection \<open>Source 3: ACS encyclopedia\<close>

text \<open>The index key that is present: the normalized name first, then the name as given.\<close>

definition acs_page :: "(string \<rightharpoonup> string \<times> string) \<Rightarrow> string \<Rightarrow> string option" where
  "acs_page index name =
     (case index (strip_str (lower_str (normalize_name name))) of
        Some (acs_name, page_url) \<Rightarrow> Some page_url
      | None \<Rightarrow>
          (case index (strip_str (lower_str name)) of
             Some (acs_name, page_url) \<Rightarrow> Some page_url
           | None \<Rightarrow> None))"

fun contains :: "string \<Rightarrow> string \<Rightarrow> bool" where
  "contains sub [] = (sub = [])"
| "contains sub (c # cs) = (take (length sub) (c # cs) = sub \<or> contains sub cs)"

definition skip_words :: "string list" where
  "skip_words = [''logo'', ''icon'', ''social'', ''facebook'', ''twitter'', ''button'',
                 ''banner'', ''header'', ''footer'', ''sprite'', ''gravatar'',
                 ''sites/default/files/styles'']"

definition skipped :: "string \<Rightarrow> bool" where
  "skipped s = list_ex (\<lambda>w. contains w (lower_str s)) skip_words"

text \<open>\<open>page_url.rsplit("/", 1)[0]\<close>.\<close>

definition rsplit_head :: "string \<Rightarrow> string" where
  "rsplit_head s =
     (if CHR ''/'' \<in> set s then rev (tl (dropWhile (\<lambda>c. c \<noteq> CHR ''/'') (rev s))) else s)"

definition full_url :: "string \<Rightarrow> string \<Rightarrow> string" where
  "full_url page_url s =
     (if take 4 s = ''http'' then s else rsplit_head page_url @ ''/'' @ s)"

definition try_acs :: "sources \<Rightarrow> string \<Rightarrow> world \<Rightarrow> found \<times> world" where
  "try_acs src name w =
     (let w0 = enter ''acs'' w in
      case acs_page (acs_index src) name of
        None \<Rightarrow> ((None, None), w0)
      | Some page_url \<Rightarrow>
          (let w1 = dispatch src (Acs_get page_url) w0 in
           case acs_get src (time w0) page_url of
             Failed \<Rightarrow> ((None, None), w1)
           | Reply imgs \<Rightarrow>
               (case find (\<lambda>s. \<not> skipped s) imgs of
                  None \<Rightarrow> ((None, None), w1)
                | Some s \<Rightarrow> ((Some (full_url page_url s), Some ''acs''), w1))))"

subsection \<open>Source 4: ICR API\<close>

text \<open>
  The loop over the names to try: \<open>_last_icr_time\<close> is set right before each
  \<open>urlopen\<close>; a 403 or 429 answer ends the search.
\<close>

fun icr_live :: "sources \<Rightarrow> string list \<Rightarrow> world \<Rightarrow> found \<times> world" where
  "icr_live src [] w = ((None, None), w)"
| "icr_live src (try_name # others) w =
     (let w1 = dispatch src (Icr_get try_name) (w\<lparr>last_icr_time := time w\<rparr>)
      in case icr_get src (time w) try_name of
           Failed \<Rightarrow> icr_live src others w1
         | Reply (st, body) \<Rightarrow>
             if st = 403 \<or> st = 429 then ((None, None), w1)
             else
               (case body of
                  Failed \<Rightarrow> icr_live src others w1
                | Reply photos \<Rightarrow>
                    if photos = [] then icr_live src others w1
                    else
                      (let default = (case find is_default_photo photos of
                                        Some p \<Rightarrow> p | None \<Rightarrow> hd photos);
                           img_url = image_url default
                       in if img_url \<noteq> [] then ((Some img_url, Some ''icr''), w1)
                          else icr_live src others w1)))"

text \<open>\<open>try_icr\<close>: the cache, then one sleep for what is left of the delay, then the loop.\<close>

definition try_icr :: "sources \<Rightarrow> string \<Rightarrow> world \<Rightarrow> found \<times> world" where
  "try_icr src name w =
     (let w0 = enter ''icr'' w; cached = cached_url (icr_cache src) name
      in if truthy cached then ((cached, Some ''icr''), w0)
         else
           (let elapsed = time w0 - last_icr_time w0;
                w1 = (if elapsed < ICR_DELAY then w0\<lparr>time := time w0 + (ICR_DELAY - elapsed)\<rparr>
                      else w0)
            in icr_live src (try_names (normalize_name name) name) w1))"

subsection \<open>The chain and the loop of main\<close>

text \<open>
  An entry of the progress file: found with an image and the source the strategy
  returned, ambiguous with an optional reason, or missing.
\<close>

datatype progress_entry =
  Found_entry string "string option" | Ambiguous_entry "string option" | Missing_entry

text \<open>\<open>if img_url:\<close> on a strategy's answer, and the entry written when it holds.\<close>

definition found_entry :: "found \<Rightarrow> progress_entry option" where
  "found_entry r =
     (case fst r of
        None \<Rightarrow> None
      | Some img \<Rightarrow> if img \<noteq> [] then Some (Found_entry img (snd r)) else None)"

text \<open>\<open>result.get("source")\<close> of a progress entry.\<close>

fun entry_source :: "progress_entry \<Rightarrow> string option" where
  "entry_source (Found_entry img source) = source"
| "entry_source _ = None"

text \<open>The body of the loop of \<open>main\<close> for a name that is not in the progress file.\<close>

definition process_live :: "sources \<Rightarrow> string \<Rightarrow> world \<Rightarrow> progress_entry \<times> world" where
  "process_live src name w =
     (let (r1, w1) = try_socal src name w in
      case found_entry r1 of
        Some p \<Rightarrow> (p, w1)
      | None \<Rightarrow>
          (let (r2, w2) = try_accs_search src name w1 in
           if fst r2 = Some ''AMBIGUOUS'' then (Ambiguous_entry (Some ''ambiguous ACCS match''), w2)
           else
             (case found_entry r2 of
                Some p \<Rightarrow> (p, w2)
              | None \<Rightarrow>
                  (let (r3, w3) = try_acs src name w2 in
                   case found_entry r3 of
                     Some p \<Rightarrow> (p, w3)
                   | None \<Rightarrow>
                       (let (r4, w4) = try_icr src name w3 in
                        case found_entry r4 of
                          Some p \<Rightarrow> (p, w4)
                        | None \<Rightarrow> (Missing_entry, w4))))))"

record image_state =
  progress :: "string \<rightharpoonup> progress_entry"
  added :: "(string \<times> string \<times> string option) list"
  skipped_ambiguous :: "(string \<times> string) list"
  missing :: "string list"
  outside :: world

text \<open>The three output lists; the counters and the log lines are left out.\<close>

fun record_entry :: "string \<Rightarrow> progress_entry \<Rightarrow> image_state \<Rightarrow> image_state" where
  "record_entry name (Found_entry img source) s = s\<lparr>added := added s @ [(name, img, source)]\<rparr>"
| "record_entry name (Ambiguous_entry reason) s =
     s\<lparr>skipped_ambiguous := skipped_ambiguous s @
          [(name, case reason of None \<Rightarrow> ''ambiguous ACCS match'' | Some x \<Rightarrow> x)]\<rparr>"
| "record_entry name Missing_entry s = s\<lparr>missing := missing s @ [name]\<rparr>"

fun image_loop :: "sources \<Rightarrow> string list \<Rightarrow> image_state \<Rightarrow> image_state" where
  "image_loop src [] s = s"
| "image_loop src (raw # entries) s =
     (let name = strip_str raw in
      case progress s name of
        Some r \<Rightarrow> image_loop src entries (record_entry name r s)
      | None \<Rightarrow>
          (let (r, w) = process_live src name (outside s) in
           image_loop src entries
             (record_entry name r (s\<lparr>progress := (progress s)(name \<mapsto> r), outside := w\<rparr>))))"

section \<open>Predicates used to state the properties\<close>

text \<open>
  A transport-level outcome of a request: an answer, or a raised exception that
  derives from \<open>Exception\<close>. For \<open>check_url\<close> the body is read only when the
  Content-Length header is missing, so only then does its reading count.
\<close>

fun transport :: "http_outcome \<Rightarrow> bool" where
  "transport (Raised x) = is_Exception x"
| "transport (Response st body) = True"

fun acs_transport :: "acs_outcome \<Rightarrow> bool" where
  "acs_transport (Acs_raised x) = is_Exception x"
| "acs_transport (Acs_response st header body) =
     (header \<noteq> None \<or> (case body of Inl x \<Rightarrow> is_Exception x | Inr b \<Rightarrow> True))"

text \<open>A failed probe: an exception or a status other than 200; an exception met by \<open>check_url\<close>.\<close>

fun failure :: "http_outcome \<Rightarrow> bool" where
  "failure (Raised x) = True"
| "failure (Response st body) = (st \<noteq> 200)"

fun acs_raises :: "acs_outcome \<Rightarrow> bool" where
  "acs_raises (Acs_raised x) = True"
| "acs_raises (Acs_response st header body) = (header = None \<and> isl body)"

text \<open>An environment in which every request has a transport-level outcome.\<close>

definition returns :: "env \<Rightarrow> bool" where
  "returns e = (\<forall>t u. transport (http_get e t u))"

text \<open>
  The index at which the loop started in state \<open>s\<close> stops: the end of the list, or
  the point where \<open>processed_this_run\<close> reaches the limit.
\<close>

definition stop_index :: "args \<Rightarrow> nat \<Rightarrow> enrich_state \<Rightarrow> nat" where
  "stop_index a n s =
     (if max_urls a > 0 then min n (idx s + (nat (max_urls a) - processed_this_run s)) else n)"


text \<open>
  Dispatch times in which each is at least \<open>d\<close> after the one before; and the
  invariant of the enrichment loop that keeps them so: the recorded time of the last
  request is not before its dispatch.
\<close>

fun spaced :: "real \<Rightarrow> real list \<Rightarrow> bool" where
  "spaced d (t1 # t2 # ts) = (t1 + d \<le> t2 \<and> spaced d (t2 # ts))"
| "spaced d ts = True"

definition paced :: "args \<Rightarrow> enrich_state \<Rightarrow> bool" where
  "paced a s =
     (spaced (delay a) (map fst (requests s)) \<and>
      (requests s = [] \<or> fst (last (requests s)) \<le> get_last_request_ts (checkpoint s)))"

text \<open>The value \<open>apply_fixes\<close> writes into \<open>acs_url\<close> for a name.\<close>

definition fix_url :: "(string \<rightharpoonup> recovery) \<Rightarrow> string \<Rightarrow> string option" where
  "fix_url rr n = (if recovered (get_recovery rr n) then new_url (get_recovery rr n) else None)"

section \<open>Example inputs\<close>

text \<open>Candidates named by one letter, scored \<open>a\<close> for the name A and \<open>b\<close> otherwise.\<close>

definition example_candidate :: "string \<Rightarrow> candidate" where
  "example_candidate n =
     \<lparr>scientific_name = n, accepted_name = n, cand_status = ''Accepted'', detail_url = ''u''\<rparr>"

definition two_scores :: "real \<Rightarrow> real \<Rightarrow> candidate \<Rightarrow> real" where
  "two_scores a b c = (if scientific_name c = ''A'' then a else b)"

definition example_found :: "string \<Rightarrow> audit_result" where
  "example_found n =
     \<lparr>input_name = n, status = Exact, error = None, candidates = [],
      best_match = Some (example_candidate n), confidence = 1, queries_tried = [n]\<rparr>"

text \<open>A stored checkpoint at index \<open>n\<close>, last updated at \<open>u\<close>.\<close>

definition cp_at :: "int \<Rightarrow> string \<Rightarrow> cp_dict" where
  "cp_at n u =
     \<lparr>created_at = Some ''2026-01-01T00:00:00+00:00'', updated_at = Some u, total_urls = Some 9,
      next_index = Some n, last_request_ts = Some 0\<rparr>"

text \<open>
  A network in which the first URL times out, the second answers 404, the third
  answers a page without names and any other a page with one name; every request
  takes one second. \<open>example_probe\<close> is what \<open>fetch_one\<close> returns there.
\<close>

definition example_env :: env where
  "example_env =
     \<lparr>http_get = (\<lambda>t u. if u = ''https://camellia.iflora.cn/a'' then Raised (Timeout_error ''read timed out'')
                        else if u = ''https://camellia.iflora.cn/b'' then Response 404 ''no''
                        else if u = ''https://camellia.iflora.cn/c'' then Response 200 ''none''
                        else Response 200 ''cha''),
      latency = (\<lambda>t u. 1),
      now_iso = (\<lambda>t. ''2026-01-01T00:00:00+00:00''),
      extract_chinese_names = (\<lambda>text. if text = ''cha'' then [''cha''] else []),
      reload = (\<lambda>r. r)\<rparr>"


definition example_urls :: "string list" where
  "example_urls = [''https://camellia.iflora.cn/a'', ''https://camellia.iflora.cn/b'',
                   ''https://camellia.iflora.cn/c'']"

definition example_args :: "bool \<Rightarrow> int \<Rightarrow> args" where
  "example_args r k = \<lparr>delay = 8, timeout = 30, max_urls = k, resume = r\<rparr>"

definition example_result :: "string \<Rightarrow> url_result" where
  "example_result n =
     \<lparr>chinese_name = [n], url_status = ''ok'', http_status = Some 200, url_error = [],
      fetched_at = ''2025-12-31T00:00:00+00:00''\<rparr>"

text \<open>A loop state at the second of three URLs, which is already in the cache.\<close>

definition example_state :: enrich_state where
  "example_state =
     \<lparr>idx = 1, processed_this_run = 0,
      checkpoint = \<lparr>created_at = None, updated_at = None, total_urls = Some 3,
                    next_index = Some 1, last_request_ts = Some 40\<rparr>,
      cache = [''https://camellia.iflora.cn/b'' \<mapsto> example_result ''cached''],
      clock = 50, cp_files = [Absent, Absent], cache_file = None,
      processed_log = [], failed_log = [], saves = [], requests = []\<rparr>"

text \<open>Answers of \<open>session.get\<close> for \<open>check_url\<close>.\<close>

definition example_get :: "string \<Rightarrow> acs_outcome" where
  "example_get u =
     (if u = ''a'' then Acs_raised (Timeout_error ''t'')
      else if u = ''b'' then Acs_response 404 None (Inr ''not found'')
      else if u = ''c'' then Acs_response 200 None (Inl (Client_error ''reset''))
      else Acs_response 200 (Some 120) (Inr ''page''))"

text \<open>A dataset of four entries with its audit and recovery results.\<close>

definition example_entry :: "string \<Rightarrow> string option \<Rightarrow> entry" where
  "example_entry n u = \<lparr>entry_name = n, acs_url = u, other_fields = [(''species'', ''japonica'')]\<rparr>"

definition example_audit :: "string \<Rightarrow> string \<Rightarrow> audit" where
  "example_audit act u = \<lparr>action = act, original_url = u, audit_error = None, audit_status = Some 404\<rparr>"

definition example_data :: "entry list" where
  "example_data = [example_entry ''Alba'' (Some ''u1''), example_entry ''Bella'' (Some ''u2''),
                   example_entry ''Cara'' (Some ''u3''), example_entry ''Dora'' None]"

definition example_audits :: "(string \<times> audit) list" where
  "example_audits = [(''Alba'', example_audit ''needs_fix'' ''u1''), (''Bella'', example_audit ''ok'' ''u2''),
                     (''Cara'', example_audit ''needs_fix'' ''u3''), (''Zed'', example_audit ''needs_fix'' ''u9'')]"

definition example_recoveries :: "string \<rightharpoonup> recovery" where
  "example_recoveries =
     [''Alba'' \<mapsto> \<lparr>recovered = True, new_url = Some ''v1'', recovery_method = Some ''deterministic_slug''\<rparr>,
      ''Cara'' \<mapsto> \<lparr>recovered = False, new_url = None, recovery_method = None\<rparr>]"

text \<open>
  Image sources with empty tables in which nothing is found (the HEAD and the page
  GET raise, the search and the API answer with nothing) and every request takes one
  second, and variants of them; a world at time 100 in which no ICR request was
  sent yet.
\<close>

definition start_world :: world where
  "start_world = \<lparr>time = 100, last_icr_time = 0, net_log = [], invoked = []\<rparr>"

definition quiet_sources :: sources where
  "quiet_sources =
     \<lparr>socal_cache = Map.empty, icr_cache = Map.empty, acs_index = Map.empty,
      socal_head = (\<lambda>t u. Failed), accs_post = (\<lambda>t n. Reply []),
      acs_get = (\<lambda>t u. Failed), icr_get = (\<lambda>t n. Reply (200, Reply [])),
      duration = (\<lambda>t r. 1)\<rparr>"

definition rosea_sources :: sources where
  "rosea_sources =
     quiet_sources\<lparr>socal_cache := [''rosea'' \<mapsto> None, ''alba'' \<mapsto> Some ''https://img/a0.jpg''],
                   icr_cache := [''rosea'' \<mapsto> Some [], ''alba'' \<mapsto> Some ''https://img/alba.jpg''],
                   socal_head := (\<lambda>t u. Reply 200),
                   icr_get := (\<lambda>t n. Reply (200, Reply [\<lparr>is_default_photo = False, image_url = ''https://img/r1.jpg''\<rparr>,
                                                          \<lparr>is_default_photo = True, image_url = ''https://img/r2.jpg''\<rparr>]))\<rparr>"

definition accs_sources :: "(string \<times> string) list \<Rightarrow> sources" where
  "accs_sources imgs = quiet_sources\<lparr>accs_post := (\<lambda>t n. Reply imgs)\<rparr>"

definition empty_image_state :: image_state where
  "empty_image_state =
     \<lparr>progress = Map.empty, added = [], skipped_ambiguous = [], missing = [], outside = start_world\<rparr>"

section \<open>Properties of the match classification\<close>

lemma sorted_desc_close:
  assumes "sorted (map (\<lambda>x. - snd x) (xs :: scored list))"
  shows "(\<exists>x \<in> set xs. snd x \<ge> b) \<longleftrightarrow> (xs \<noteq> [] \<and> snd (hd xs) \<ge> b)"
proof (cases xs)
  case Nil
  then show ?thesis by simp
next
  case (Cons y ys)
  with assms have "\<forall>x \<in> set ys. snd x \<le> snd y" by auto
  with Cons show ?thesis by fastforce
qed

lemma sort_desc_sorted: "sorted (map (\<lambda>x. - snd x) (sort_desc xs))"
  by (simp add: sort_desc_def)

lemma sort_desc_nonempty: "xs \<noteq> [] \<Longrightarrow> sort_desc xs \<noteq> []"
  by (metis length_0_conv length_sort sort_desc_def)

lemma sorted_map_tl: "sorted (map f xs) \<Longrightarrow> sorted (map f (tl xs))"
  by (cases xs) auto

text \<open>
  Claim C2 (fuzzy classification policy). For every non-empty candidate list,
  \<open>search_icr\<close> ranks the scored candidates in descending order (a permutation of the
  input whose first element has the highest score) and reports: exact when the top
  score is at least 0.95, with the top candidate as best match; fuzzy match with the
  top candidate when the top score is in [0.6, 0.95) and no other candidate scores at
  least the top score minus 0.05; ambiguous when the top score is in [0.6, 0.95) and
  some other candidate does; no match, with no best match, when the top score is
  below 0.6.
\<close>

theorem search_icr_match_policy:
  "all_candidates \<noteq> [] \<Longrightarrow>
   (let r = search_icr_match score_of name tried all_candidates;
        ranked = sort_desc (map (\<lambda>c. (c, score_of c)) all_candidates);
        top = hd ranked; t = snd top;
        close = (\<exists>x \<in> set (tl ranked). snd x \<ge> t - 0.05)
    in mset ranked = mset (map (\<lambda>c. (c, score_of c)) all_candidates) \<and>
       (\<forall>x \<in> set ranked. snd x \<le> t) \<and>
       confidence r = t \<and>
       (t \<ge> 0.95 \<longrightarrow> status r = Exact \<and> best_match r = Some (fst top)) \<and>
       (0.6 \<le> t \<and> t < 0.95 \<and> \<not> close \<longrightarrow> status r = Fuzzy_match \<and> best_match r = Some (fst top)) \<and>
       (0.6 \<le> t \<and> t < 0.95 \<and> close \<longrightarrow> status r = Ambiguous) \<and>
       (t < 0.6 \<longrightarrow> status r = No_match \<and> best_match r = None))"
proof -
  assume ne: "all_candidates \<noteq> []"
  define rk where "rk = sort_desc (map (\<lambda>c. (c, score_of c)) all_candidates)"
  have rk_ne: "rk \<noteq> []" unfolding rk_def using ne by (simp add: sort_desc_nonempty)
  have srt: "sorted (map (\<lambda>x. - snd x) rk)" unfolding rk_def by (rule sort_desc_sorted)
  have top_max: "\<forall>x \<in> set rk. snd x \<le> snd (hd rk)"
    using srt rk_ne by (cases rk) auto
  have close_eq: "(\<exists>x \<in> set (tl rk). snd x \<ge> b) \<longleftrightarrow> (tl rk \<noteq> [] \<and> snd (hd (tl rk)) \<ge> b)" for b
    by (rule sorted_desc_close) (rule sorted_map_tl [OF srt])
  have perm: "mset rk = mset (map (\<lambda>c. (c, score_of c)) all_candidates)"
    unfolding rk_def sort_desc_def by simp
  show ?thesis
    using ne top_max perm close_eq [of "snd (hd rk) - 0.05"]
    unfolding Let_def rk_def [symmetric]
    by (simp add: search_icr_match_def tier_def Let_def rk_def [symmetric])
qed

text \<open>
  The policy at the scores [0.93, 0.90] (ambiguous), [0.93, 0.80] (fuzzy match with the
  top candidate), [0.97] (exact) and [0.4] (no match).
\<close>

theorem search_icr_match_policy_examples:
  "status (search_icr_match (two_scores 0.93 0.90) ''n'' [] [example_candidate ''B'', example_candidate ''A'']) = Ambiguous \<and>
   status (search_icr_match (two_scores 0.93 0.80) ''n'' [] [example_candidate ''B'', example_candidate ''A'']) = Fuzzy_match \<and>
   best_match (search_icr_match (two_scores 0.93 0.80) ''n'' [] [example_candidate ''B'', example_candidate ''A'']) = Some (example_candidate ''A'') \<and>
   status (search_icr_match (two_scores 0.97 0) ''n'' [] [example_candidate ''A'']) = Exact \<and>
   status (search_icr_match (two_scores 0.4 0) ''n'' [] [example_candidate ''A'']) = No_match"
  using search_icr_match_policy [of "[example_candidate ''B'', example_candidate ''A'']" "two_scores 0.93 0.90" "''n''" "[]"]
        search_icr_match_policy [of "[example_candidate ''B'', example_candidate ''A'']" "two_scores 0.93 0.80" "''n''" "[]"]
        search_icr_match_policy [of "[example_candidate ''A'']" "two_scores 0.97 0" "''n''" "[]"]
        search_icr_match_policy [of "[example_candidate ''A'']" "two_scores 0.4 0" "''n''" "[]"]
  by (simp add: Let_def sort_desc_def two_scores_def example_candidate_def)

section \<open>Properties of checkpoint loading\<close>

lemma key_less_irrefl: "\<not> key_less a a"
  by (simp add: key_less_def)

lemma key_ge_trans: "\<not> key_less a b \<Longrightarrow> \<not> key_less b c \<Longrightarrow> \<not> key_less a c"
  by (auto simp: key_less_def)

lemma key_less_imp_ge: "key_less a b \<Longrightarrow> \<not> key_less b a"
  by (auto simp: key_less_def)

lemma max_from_mem: "max_from b cs \<in> set (b # cs)"
  by (induction cs arbitrary: b) auto

lemma max_from_ge_best: "\<not> key_less (key (max_from b cs)) (key b)"
proof (induction cs arbitrary: b)
  case Nil
  show ?case by (simp add: key_less_irrefl)
next
  case (Cons c cs)
  show ?case
  proof (cases "key_less (key b) (key c)")
    case True
    have "\<not> key_less (key (max_from c cs)) (key c)" by (rule Cons.IH)
    moreover have "\<not> key_less (key c) (key b)" using True by (rule key_less_imp_ge)
    ultimately have "\<not> key_less (key (max_from c cs)) (key b)" by (rule key_ge_trans)
    with True show ?thesis by simp
  next
    case False
    then show ?thesis using Cons.IH [of b] by simp
  qed
qed

lemma max_from_ge: "c \<in> set (b # cs) \<Longrightarrow> \<not> key_less (key (max_from b cs)) (key c)"
proof (induction cs arbitrary: b)
  case Nil
  then show ?case by (simp add: key_less_irrefl)
next
  case (Cons d cs)
  let ?b' = "if key_less (key b) (key d) then d else b"
  have step: "max_from b (d # cs) = max_from ?b' cs" by simp
  from Cons.prems consider "c = b" | "c = d" | "c \<in> set cs" by auto
  then show ?case
  proof cases
    case 1
    then show ?thesis using max_from_ge_best [of b "d # cs"] by simp
  next
    case 2
    have a: "\<not> key_less (key (max_from ?b' cs)) (key ?b')" by (rule max_from_ge_best)
    have b: "\<not> key_less (key ?b') (key d)" by (simp add: key_less_irrefl)
    from a b have "\<not> key_less (key (max_from ?b' cs)) (key d)" by (rule key_ge_trans)
    with 2 step show ?thesis by simp
  next
    case 3
    then have "c \<in> set (?b' # cs)" by simp
    then have "\<not> key_less (key (max_from ?b' cs)) (key c)" by (rule Cons.IH)
    with step show ?thesis by simp
  qed
qed

lemma set_readable: "set (readable tot files) = {with_defaults tot c | c. Stored c \<in> set files}"
  by (induction tot files rule: readable.induct) auto

lemma key_with_defaults: "key (with_defaults tot c) = key c"
  by (simp add: key_def with_defaults_def get_next_index_def get_updated_at_def split: option.splits)

lemma not_key_less_iff:
  "\<not> key_less (key a) (key c) \<longleftrightarrow>
     get_next_index c \<le> get_next_index a \<and>
     (get_next_index c = get_next_index a \<longrightarrow> get_updated_at c \<le> get_updated_at a)"
  by (auto simp: key_less_def key_def)

text \<open>
  Claim C7 (checkpoint mirror selection). On a resume (\<open>reset\<close> false), with at least
  one mirror path: when some mirror is readable, the checkpoint loaded is a readable
  mirror (with \<open>total_urls\<close> and the defaults set) whose \<open>next_index\<close> is the highest
  among the readable mirrors and whose \<open>updated_at\<close> is the latest among those with
  that \<open>next_index\<close>; when no mirror is readable, the result is a fresh checkpoint
  with \<open>next_index\<close> 0.
\<close>

theorem load_best_checkpoint_selects:
  "files \<noteq> [] \<Longrightarrow>
   ((\<exists>c. Stored c \<in> set files) \<longrightarrow>
      (\<exists>cp. Stored cp \<in> set files \<and>
            load_best_checkpoint now files tot False = Inr (with_defaults tot cp) \<and>
            (\<forall>c. Stored c \<in> set files \<longrightarrow>
                 get_next_index c \<le> get_next_index cp \<and>
                 (get_next_index c = get_next_index cp \<longrightarrow> get_updated_at c \<le> get_updated_at cp)))) \<and>
   ((\<forall>c. Stored c \<notin> set files) \<longrightarrow>
      load_best_checkpoint now files tot False = Inr (fresh_checkpoint now tot) \<and>
      next_index (fresh_checkpoint now tot) = Some 0)"
proof (intro conjI impI)
  assume ne: "files \<noteq> []" and ex: "\<exists>c. Stored c \<in> set files"
  then have "readable tot files \<noteq> []" using set_readable [of tot files] by auto
  then obtain b cs where bc: "readable tot files = b # cs" by (cases "readable tot files") auto
  let ?m = "max_from b cs"
  have res: "load_best_checkpoint now files tot False = Inr ?m"
    by (simp add: load_best_checkpoint_def bc)
  have "?m \<in> set (readable tot files)" unfolding bc by (rule max_from_mem)
  then obtain cp where cp: "Stored cp \<in> set files" "?m = with_defaults tot cp"
    using set_readable [of tot files] by auto
  have best: "get_next_index c \<le> get_next_index cp \<and>
       (get_next_index c = get_next_index cp \<longrightarrow> get_updated_at c \<le> get_updated_at cp)"
    if "Stored c \<in> set files" for c
  proof -
    from that have "with_defaults tot c \<in> set (b # cs)"
      using set_readable [of tot files] bc by auto
    then have "\<not> key_less (key ?m) (key (with_defaults tot c))" by (rule max_from_ge)
    then have "\<not> key_less (key cp) (key c)" by (simp add: cp key_with_defaults)
    then show ?thesis by (simp add: not_key_less_iff)
  qed
  from cp res best show "\<exists>cp. Stored cp \<in> set files \<and>
            load_best_checkpoint now files tot False = Inr (with_defaults tot cp) \<and>
            (\<forall>c. Stored c \<in> set files \<longrightarrow>
                 get_next_index c \<le> get_next_index cp \<and>
                 (get_next_index c = get_next_index cp \<longrightarrow> get_updated_at c \<le> get_updated_at cp))"
    by auto
next
  assume ne: "files \<noteq> []" and no: "\<forall>c. Stored c \<notin> set files"
  then have "readable tot files = []" using set_readable [of tot files] by auto
  moreover from ne obtain f fs where "files = f # fs" by (cases files) auto
  ultimately show "load_best_checkpoint now files tot False = Inr (fresh_checkpoint now tot)"
    by (simp add: load_best_checkpoint_def first_path_def load_checkpoint_def with_defaults_def
        fresh_checkpoint_def get_next_index_def get_last_request_ts_def)
next
  show "next_index (fresh_checkpoint now tot) = Some 0" by (simp add: fresh_checkpoint_def)
qed

text \<open>
  Three readable mirrors among five files, two of them tied at index 5; and two files
  of which none is readable.
\<close>

theorem load_best_checkpoint_selects_examples:
  "load_best_checkpoint ''now'' [Stored (cp_at 3 ''2026-03-01T10:00:00+00:00''), Unreadable,
       Stored (cp_at 5 ''2026-02-01T10:00:00+00:00''), Stored (cp_at 5 ''2026-02-01T10:00:07+00:00''), Absent] 9 False
     = Inr (cp_at 5 ''2026-02-01T10:00:07+00:00'') \<and>
   load_best_checkpoint ''now'' [Absent, Unreadable] 9 False = Inr (fresh_checkpoint ''now'' 9)"
  using load_best_checkpoint_selects [of "[Stored (cp_at 3 ''2026-03-01T10:00:00+00:00''), Unreadable,
       Stored (cp_at 5 ''2026-02-01T10:00:00+00:00''), Stored (cp_at 5 ''2026-02-01T10:00:07+00:00''), Absent]" "''now''" 9]
    load_best_checkpoint_selects [of "[Absent, Unreadable]" "''now''" 9]
  by (simp add: load_best_checkpoint_def key_less_def key_def cp_at_def with_defaults_def
      get_next_index_def get_updated_at_def get_last_request_ts_def first_path_def load_checkpoint_def fresh_checkpoint_def)

section \<open>Properties of the probes\<close>

text \<open>
  Claim C8 (probe error containment). Whenever the transport answers or raises an
  \<open>Exception\<close> (a timeout, a connection error, any non-200 status), \<open>fetch_one\<close> and
  \<open>check_url\<close> return a result instead of raising. For \<open>fetch_one\<close> a raised
  exception or a non-200 status gives status failed with no names, which differs from
  the missing status a valid answer without names gets, and a 200 answer gives ok or
  missing. For \<open>check_url\<close> a raised exception gives an invalid result with no status
  and an error text, an answer gives a result with its status and no error, invalid
  unless the status is 200.
\<close>

theorem probe_error_containment:
  "transport (http_get e t url) \<and> acs_transport (get u) \<longrightarrow>
   (\<exists>r. fetch_one e t url = Inr r \<and>
        (failure (http_get e t url) \<longrightarrow>
           url_status r = ''failed'' \<and> chinese_name r = [] \<and> url_status r \<noteq> ''missing'') \<and>
        (\<not> failure (http_get e t url) \<longrightarrow> url_status r = ''ok'' \<or> url_status r = ''missing'')) \<and>
   (\<exists>c. check_url get u = Inr c \<and>
        (acs_raises (get u) \<longrightarrow> \<not> valid c \<and> cr_status c = None \<and> cr_error c \<noteq> None) \<and>
        (\<not> acs_raises (get u) \<longrightarrow>
           cr_error c = None \<and> cr_status c \<noteq> None \<and> (cr_status c \<noteq> Some 200 \<longrightarrow> \<not> valid c)))"
proof (intro impI conjI)
  assume h: "transport (http_get e t url) \<and> acs_transport (get u)"
  show "\<exists>r. fetch_one e t url = Inr r \<and>
        (failure (http_get e t url) \<longrightarrow>
           url_status r = ''failed'' \<and> chinese_name r = [] \<and> url_status r \<noteq> ''missing'') \<and>
        (\<not> failure (http_get e t url) \<longrightarrow> url_status r = ''ok'' \<or> url_status r = ''missing'')"
  proof (cases "http_get e t url")
    case (Raised x)
    with h show ?thesis by (simp add: fetch_one_def Let_def)
  next
    case (Response st body)
    then show ?thesis by (simp add: fetch_one_def Let_def)
  qed
  show "\<exists>c. check_url get u = Inr c \<and>
        (acs_raises (get u) \<longrightarrow> \<not> valid c \<and> cr_status c = None \<and> cr_error c \<noteq> None) \<and>
        (\<not> acs_raises (get u) \<longrightarrow>
           cr_error c = None \<and> cr_status c \<noteq> None \<and> (cr_status c \<noteq> Some 200 \<longrightarrow> \<not> valid c))"
  proof (cases "get u")
    case (Acs_raised x)
    with h show ?thesis by (cases x) (simp_all add: check_url_def)
  next
    case (Acs_response st header body)
    show ?thesis
    proof (cases header)
      case (Some n)
      with Acs_response show ?thesis by (simp add: check_url_def)
    next
      case None
      show ?thesis
      proof (cases body)
        case (Inl x)
        with h None Acs_response show ?thesis by (cases x) (simp_all add: check_url_def)
      next
        case (Inr b)
        with None Acs_response show ?thesis by (simp add: check_url_def)
      qed
    qed
  qed
qed

text \<open>
  A timeout, a 404 and a page without names for \<open>fetch_one\<close>; a timeout, a 404 and a
  body that fails to read for \<open>check_url\<close>; and a keyboard interrupt, which is not
  contained.
\<close>

theorem probe_error_containment_examples:
  "(\<exists>r. fetch_one example_env 0 ''https://camellia.iflora.cn/a'' = Inr r \<and> url_status r = ''failed'') \<and>
   (\<exists>r. fetch_one example_env 0 ''https://camellia.iflora.cn/b'' = Inr r \<and> url_status r = ''failed'') \<and>
   (\<exists>r. fetch_one example_env 0 ''https://camellia.iflora.cn/c'' = Inr r \<and> url_status r = ''missing'') \<and>
   (\<exists>c. check_url example_get ''a'' = Inr c \<and> \<not> valid c \<and> cr_error c = Some ''timeout'') \<and>
   (\<exists>c. check_url example_get ''b'' = Inr c \<and> \<not> valid c \<and> cr_error c = None) \<and>
   (\<exists>c. check_url example_get ''c'' = Inr c \<and> \<not> valid c \<and> cr_error c = Some ''reset'') \<and>
   (\<exists>m. fetch_one (example_env\<lparr>http_get := \<lambda>t u. Raised (Base_exception ''KeyboardInterrupt'')\<rparr>) 0 ''x'' = Inl m)"
  using probe_error_containment [of example_env 0 "''https://camellia.iflora.cn/a''" example_get "''a''"]
    probe_error_containment [of example_env 0 "''https://camellia.iflora.cn/b''" example_get "''b''"]
    probe_error_containment [of example_env 0 "''https://camellia.iflora.cn/c''" example_get "''c''"]
  by (simp add: example_env_def example_get_def fetch_one_def check_url_def Let_def)

section \<open>Properties of fix application\<close>

lemma name_to_idx_from_Some:
  "name_to_idx_from k xs m n = Some i \<Longrightarrow>
     m n = Some i \<or> (k \<le> i \<and> i < k + length xs \<and> entry_name (xs ! (i - k)) = n)"
proof (induction xs arbitrary: k m)
  case Nil
  then show ?case by simp
next
  case (Cons x xs)
  from Cons.prems have "name_to_idx_from (Suc k) xs (m(entry_name x \<mapsto> k)) n = Some i" by simp
  from Cons.IH [OF this] show ?case
  proof
    assume "(m(entry_name x \<mapsto> k)) n = Some i"
    then show ?thesis by (auto split: if_splits)
  next
    assume a: "Suc k \<le> i \<and> i < Suc k + length xs \<and> entry_name (xs ! (i - Suc k)) = n"
    then have "(x # xs) ! (i - k) = xs ! (i - Suc k)"
      by (metis Suc_diff_le diff_Suc_Suc nth_Cons_Suc)
    with a show ?thesis by auto
  qed
qed

lemma name_to_idx_Some:
  "name_to_idx data n = Some i \<Longrightarrow> i < length data \<and> entry_name (data ! i) = n"
  using name_to_idx_from_Some [of 0 data Map.empty n i] by (simp add: name_to_idx_def)

lemma apply_loop_frame:
  assumes "distinct (map fst items)"
    and "\<forall>n i. idx_of n = Some i \<longrightarrow> i < length data \<and> entry_name (data ! i) = n"
  shows "case apply_loop idx_of rr items (data, fixed, cleared) of
           (data', fixed', cleared') \<Rightarrow>
             length data' = length data \<and>
             (\<forall>i < length data.
                data' ! i =
                  (case map_of items (entry_name (data ! i)) of
                     None \<Rightarrow> data ! i
                   | Some a \<Rightarrow>
                       if action a = ''needs_fix'' \<and> idx_of (entry_name (data ! i)) = Some i
                       then (data ! i)\<lparr>acs_url := fix_url rr (entry_name (data ! i))\<rparr>
                       else data ! i))"
  using assms
proof (induction items arbitrary: data fixed cleared)
  case Nil
  then show ?case by simp
next
  case (Cons item items)
  obtain n a where item: "item = (n, a)" by (cases item)
  from Cons.prems(1) item have dist: "distinct (map fst items)" and fresh: "map_of items n = None"
    by (auto simp: map_of_eq_None_iff)
  note inv = Cons.prems(2)
  show ?case
  proof (cases "action a = ''needs_fix'' \<and> idx_of n \<noteq> None")
    case False
    then have eq: "apply_loop idx_of rr (item # items) (data, fixed, cleared) =
                   apply_loop idx_of rr items (data, fixed, cleared)"
      by (auto simp: item)
    from Cons.IH [OF dist inv, of fixed cleared] False fresh show ?thesis
      unfolding eq by (auto simp: item split: prod.splits option.splits)
  next
    case True
    then obtain j where j: "idx_of n = Some j" and act: "action a = ''needs_fix''" by auto
    from inv j have jlt: "j < length data" and jname: "entry_name (data ! j) = n" by auto
    define data1 where "data1 = data[j := (data ! j)\<lparr>acs_url := fix_url rr n\<rparr>]"
    have names1: "entry_name (data1 ! i) = entry_name (data ! i)" if "i < length data" for i
      using that jlt by (cases "i = j") (simp_all add: data1_def)
    have len1: "length data1 = length data" by (simp add: data1_def)
    have inv1: "\<forall>n i. idx_of n = Some i \<longrightarrow> i < length data1 \<and> entry_name (data1 ! i) = n"
      using inv names1 len1 by auto
    obtain fixed1 cleared1 where eq:
      "apply_loop idx_of rr (item # items) (data, fixed, cleared) =
       apply_loop idx_of rr items (data1, fixed1, cleared1)"
      by (cases "recovered (get_recovery rr n)")
         (simp_all add: item act j Let_def data1_def fix_url_def)
    obtain data' fixed' cleared' where res:
      "apply_loop idx_of rr items (data1, fixed1, cleared1) = (data', fixed', cleared')"
      by (cases "apply_loop idx_of rr items (data1, fixed1, cleared1)") auto
    from Cons.IH [OF dist inv1, of fixed1 cleared1] res
    have len': "length data' = length data1"
      and ih: "\<forall>i < length data1.
                data' ! i =
                  (case map_of items (entry_name (data1 ! i)) of
                     None \<Rightarrow> data1 ! i
                   | Some a \<Rightarrow>
                       if action a = ''needs_fix'' \<and> idx_of (entry_name (data1 ! i)) = Some i
                       then (data1 ! i)\<lparr>acs_url := fix_url rr (entry_name (data1 ! i))\<rparr>
                       else data1 ! i)"
      by auto
    have "data' ! i =
            (case map_of (item # items) (entry_name (data ! i)) of
               None \<Rightarrow> data ! i
             | Some a \<Rightarrow>
                 if action a = ''needs_fix'' \<and> idx_of (entry_name (data ! i)) = Some i
                 then (data ! i)\<lparr>acs_url := fix_url rr (entry_name (data ! i))\<rparr>
                 else data ! i)" if ilt: "i < length data" for i
    proof (cases "entry_name (data ! i) = n")
      case True
      with ih ilt len1 names1 [OF ilt] fresh have "data' ! i = data1 ! i"
        by (simp split: option.splits)
      also have "data1 ! i = (if i = j then (data ! j)\<lparr>acs_url := fix_url rr n\<rparr> else data ! i)"
        using ilt by (simp add: data1_def)
      finally show ?thesis using True act j by (auto simp: item)
    next
      case False
      with jname have "i \<noteq> j" by auto
      then have "data1 ! i = data ! i" by (simp add: data1_def)
      with ih ilt len1 False show ?thesis by (simp add: item split: option.splits)
    qed
    with len' len1 show ?thesis unfolding eq res by simp
  qed
qed

text \<open>
  Claim C10 (frame property of fix application). For audit results with distinct
  names, \<open>apply_fixes\<close> keeps the length of the dataset and, at every position, the
  name and all other fields. An entry without an audit result, with an audit action
  other than needs_fix, or that is not the entry the name index points to, is left
  as it was. The entry a needs_fix name points to changes in its \<open>acs_url\<close> only,
  which becomes the recovered URL when recovery succeeded and null otherwise.
\<close>

theorem apply_fixes_frame:
  "distinct (map fst audit_results) \<Longrightarrow>
   (case apply_fixes data audit_results recovery_results of
      (data', fixed, cleared) \<Rightarrow>
        length data' = length data \<and>
        (\<forall>i < length data.
           entry_name (data' ! i) = entry_name (data ! i) \<and>
           other_fields (data' ! i) = other_fields (data ! i) \<and>
           (case map_of audit_results (entry_name (data ! i)) of
              None \<Rightarrow> data' ! i = data ! i
            | Some a \<Rightarrow>
                if action a = ''needs_fix'' \<and> name_to_idx data (entry_name (data ! i)) = Some i
                then data' ! i =
                       (data ! i)\<lparr>acs_url :=
                          (if recovered (get_recovery recovery_results (entry_name (data ! i)))
                           then new_url (get_recovery recovery_results (entry_name (data ! i)))
                           else None)\<rparr>
                else data' ! i = data ! i)))"
proof -
  assume d: "distinct (map fst audit_results)"
  have inv: "\<forall>n i. name_to_idx data n = Some i \<longrightarrow> i < length data \<and> entry_name (data ! i) = n"
    using name_to_idx_Some by blast
  from apply_loop_frame [OF d inv, of recovery_results "[]" "[]"]
  show ?thesis
    unfolding apply_fixes_def fix_url_def
    by (auto split: prod.splits option.splits)
qed

text \<open>
  Four entries: one fixed, one audited ok, one cleared, one never audited; and an
  audited name that is not in the dataset.
\<close>

theorem apply_fixes_frame_example:
  "apply_fixes example_data example_audits example_recoveries =
     ([example_entry ''Alba'' (Some ''v1''), example_entry ''Bella'' (Some ''u2''),
       example_entry ''Cara'' None, example_entry ''Dora'' None],
      [\<lparr>fixed_name = ''Alba'', fixed_old_url = ''u1'', fixed_new_url = Some ''v1'',
        fixed_method = Some ''deterministic_slug''\<rparr>],
      [\<lparr>cleared_name = ''Cara'', cleared_old_url = ''u3'', cleared_error = None,
        cleared_http_status = Some 404\<rparr>])"
  using apply_fixes_frame [of example_audits example_data example_recoveries]
  by (simp add: apply_fixes_def name_to_idx_def example_data_def example_audits_def
      example_recoveries_def example_entry_def example_audit_def get_recovery_def Let_def)

section \<open>Properties of the image sources\<close>

lemma socal_live_cache: "socal_live (src\<lparr>socal_cache := c\<rparr>) ns w = socal_live src ns w"
  by (induction ns arbitrary: w) (simp_all add: dispatch_def Let_def split: reply.splits)

lemma icr_live_cache: "icr_live (src\<lparr>icr_cache := c\<rparr>) ns w = icr_live src ns w"
  by (induction ns arbitrary: w) (simp_all add: dispatch_def Let_def split: reply.splits prod.splits)

lemma socal_live_log: "\<exists>rest. net_log (snd (socal_live src ns w)) = net_log w @ rest"
proof (induction ns arbitrary: w)
  case Nil
  show ?case by simp
next
  case (Cons n ns)
  let ?rq = "Socal_head (SOCAL_BASE @ quote (n @ ''.jpg''))"
  from Cons [of "dispatch src ?rq w"] obtain rest where
    "net_log (snd (socal_live src ns (dispatch src ?rq w))) = net_log w @ (?rq, time w) # rest"
    by (auto simp: dispatch_def)
  then show ?case
    by (auto simp: Let_def dispatch_def split: reply.splits)
qed

lemma socal_live_first:
  "\<exists>rest. net_log (snd (socal_live src (n # ns) w)) =
           net_log w @ (Socal_head (SOCAL_BASE @ quote (n @ ''.jpg'')), time w) # rest"
proof -
  let ?rq = "Socal_head (SOCAL_BASE @ quote (n @ ''.jpg''))"
  from socal_live_log [of src ns "dispatch src ?rq w"] obtain rest where
    "net_log (snd (socal_live src ns (dispatch src ?rq w))) = net_log w @ (?rq, time w) # rest"
    by (auto simp: dispatch_def)
  then show ?thesis
    by (auto simp: Let_def dispatch_def split: reply.splits)
qed

lemma icr_live_log: "\<exists>rest. net_log (snd (icr_live src ns w)) = net_log w @ rest"
proof (induction ns arbitrary: w)
  case Nil
  show ?case by simp
next
  case (Cons n ns)
  let ?w1 = "dispatch src (Icr_get n) (w\<lparr>last_icr_time := time w\<rparr>)"
  from Cons [of ?w1] obtain rest where
    "net_log (snd (icr_live src ns ?w1)) = net_log w @ (Icr_get n, time w) # rest"
    by (auto simp: dispatch_def)
  then show ?case
    by (auto simp: Let_def dispatch_def split: reply.splits)
qed

lemma icr_live_first:
  "\<exists>rest. net_log (snd (icr_live src (n # ns) w)) = net_log w @ (Icr_get n, time w) # rest"
proof -
  let ?w1 = "dispatch src (Icr_get n) (w\<lparr>last_icr_time := time w\<rparr>)"
  from icr_live_log [of src ns ?w1] obtain rest where
    "net_log (snd (icr_live src ns ?w1)) = net_log w @ (Icr_get n, time w) # rest"
    by (auto simp: dispatch_def)
  then show ?thesis
    by (auto simp: Let_def dispatch_def split: reply.splits)
qed

lemma try_names_Cons: "\<exists>ns. try_names (normalize_name name) name = normalize_name name # ns"
  by (simp add: try_names_def)

lemma cached_url_negative:
  "c k = Some v \<Longrightarrow> \<not> truthy v \<Longrightarrow> truthy (cached_url (c(k := None)) name) = truthy (cached_url c name)
     \<and> (truthy (cached_url c name) \<longrightarrow> cached_url (c(k := None)) name = cached_url c name)"
  by (auto simp: cached_url_def py_or_def cache_get_def truthy_def split: option.splits)

text \<open>
  Claim C9 (negative cache entries do not short-circuit). In \<open>try_socal\<close> and
  \<open>try_icr\<close>, a cache key that is present with a null or empty value behaves as if
  the key were absent: removing it changes neither the result nor the effects. When
  the cache lookup is not truthy, a live request for the normalized name is
  dispatched; when it is truthy, the cached URL is returned with the source's tag and
  no request is sent.
\<close>

theorem negative_cache_entry:
  "(socal_cache src k = Some v \<and> \<not> truthy v \<longrightarrow>
      try_socal src name w = try_socal (src\<lparr>socal_cache := (socal_cache src)(k := None)\<rparr>) name w) \<and>
   (icr_cache src k = Some v \<and> \<not> truthy v \<longrightarrow>
      try_icr src name w = try_icr (src\<lparr>icr_cache := (icr_cache src)(k := None)\<rparr>) name w) \<and>
   (\<not> truthy (cached_url (socal_cache src) name) \<longrightarrow>
      (\<exists>rest. net_log (snd (try_socal src name w)) =
          net_log w @ (Socal_head (SOCAL_BASE @ quote (normalize_name name @ ''.jpg'')), time w) # rest)) \<and>
   (\<not> truthy (cached_url (icr_cache src) name) \<longrightarrow>
      (\<exists>t rest. net_log (snd (try_icr src name w)) =
          net_log w @ (Icr_get (normalize_name name), t) # rest)) \<and>
   (truthy (cached_url (socal_cache src) name) \<longrightarrow>
      fst (try_socal src name w) = (cached_url (socal_cache src) name, Some ''socal'') \<and>
      net_log (snd (try_socal src name w)) = net_log w) \<and>
   (truthy (cached_url (icr_cache src) name) \<longrightarrow>
      fst (try_icr src name w) = (cached_url (icr_cache src) name, Some ''icr'') \<and>
      net_log (snd (try_icr src name w)) = net_log w)"
proof (intro conjI impI)
  assume "socal_cache src k = Some v \<and> \<not> truthy v"
  then show "try_socal src name w = try_socal (src\<lparr>socal_cache := (socal_cache src)(k := None)\<rparr>) name w"
    using cached_url_negative [of "socal_cache src" k v name]
    by (auto simp: try_socal_def Let_def socal_live_cache)
next
  assume "icr_cache src k = Some v \<and> \<not> truthy v"
  then show "try_icr src name w = try_icr (src\<lparr>icr_cache := (icr_cache src)(k := None)\<rparr>) name w"
    using cached_url_negative [of "icr_cache src" k v name]
    by (auto simp: try_icr_def Let_def icr_live_cache)
next
  assume neg: "\<not> truthy (cached_url (socal_cache src) name)"
  obtain ns where ns: "try_names (normalize_name name) name = normalize_name name # ns"
    using try_names_Cons by blast
  from socal_live_first [of src "normalize_name name" ns "enter ''socal'' w"] neg ns
  show "\<exists>rest. net_log (snd (try_socal src name w)) =
          net_log w @ (Socal_head (SOCAL_BASE @ quote (normalize_name name @ ''.jpg'')), time w) # rest"
    by (simp add: try_socal_def Let_def enter_def)
next
  assume neg: "\<not> truthy (cached_url (icr_cache src) name)"
  obtain ns where ns: "try_names (normalize_name name) name = normalize_name name # ns"
    using try_names_Cons by blast
  define w1 where "w1 = (let w0 = enter ''icr'' w; elapsed = time w0 - last_icr_time w0 in
                (if elapsed < ICR_DELAY then w0\<lparr>time := time w0 + (ICR_DELAY - elapsed)\<rparr> else w0))"
  have log1: "net_log w1 = net_log w" by (simp add: w1_def Let_def enter_def)
  have "try_icr src name w = icr_live src (normalize_name name # ns) w1"
    using neg ns by (simp add: try_icr_def Let_def w1_def)
  with icr_live_first [of src "normalize_name name" ns w1] log1
  show "\<exists>t rest. net_log (snd (try_icr src name w)) =
          net_log w @ (Icr_get (normalize_name name), t) # rest"
    by auto
next
  assume "truthy (cached_url (socal_cache src) name)"
  then show "fst (try_socal src name w) = (cached_url (socal_cache src) name, Some ''socal'')"
    and "net_log (snd (try_socal src name w)) = net_log w"
    by (simp_all add: try_socal_def Let_def enter_def)
next
  assume "truthy (cached_url (icr_cache src) name)"
  then show "fst (try_icr src name w) = (cached_url (icr_cache src) name, Some ''icr'')"
    and "net_log (snd (try_icr src name w)) = net_log w"
    by (simp_all add: try_icr_def Let_def enter_def)
qed

lemmas string_ops = strip_str_def lower_str_def is_space_def lower_char_def is_upper_def
  is_lower_def is_digit_def is_word_def quote_def hex_digit_def try_names_def

text \<open>
  A name cached as null in the SoCal table and as the empty string in the ICR table
  is requested live from both; a name with a cached URL is answered from either table
  without a request.
\<close>

theorem negative_cache_entry_examples:
  "try_socal rosea_sources ''Rosea'' start_world =
     ((Some (SOCAL_BASE @ ''Rosea.jpg''), Some ''socal''),
      start_world\<lparr>time := 101, net_log := [(Socal_head (SOCAL_BASE @ ''Rosea.jpg''), 100)],
                  invoked := [''socal'']\<rparr>) \<and>
   try_icr rosea_sources ''Rosea'' start_world =
     ((Some ''https://img/r2.jpg'', Some ''icr''),
      start_world\<lparr>time := 101, last_icr_time := 100, net_log := [(Icr_get ''Rosea'', 100)],
                  invoked := [''icr'']\<rparr>) \<and>
   try_icr rosea_sources ''Alba'' start_world =
     ((Some ''https://img/alba.jpg'', Some ''icr''), start_world\<lparr>invoked := [''icr'']\<rparr>) \<and>
   try_socal rosea_sources ''Alba'' start_world =
     ((Some ''https://img/a0.jpg'', Some ''socal''), start_world\<lparr>invoked := [''socal'']\<rparr>)"
  using negative_cache_entry [of rosea_sources "''rosea''" None "''Rosea''" start_world]
    negative_cache_entry [of rosea_sources "''rosea''" "Some []" "''Rosea''" start_world]
    negative_cache_entry [of rosea_sources "''alba''" "Some ''https://img/alba.jpg''" "''Alba''" start_world]
  by (simp add: try_socal_def try_icr_def rosea_sources_def quiet_sources_def start_world_def
      cached_url_def py_or_def cache_get_def truthy_def enter_def dispatch_def Let_def ICR_DELAY_def
      string_ops)

section \<open>Properties of the strategy chain\<close>

lemma socal_live_invoked: "invoked (snd (socal_live src ns w)) = invoked w"
  by (induction ns arbitrary: w) (simp_all add: dispatch_def Let_def split: reply.splits)

lemma accs_live_invoked: "invoked (snd (accs_live src ns w)) = invoked w"
  by (induction ns arbitrary: w)
     (simp_all add: dispatch_def Let_def split: reply.splits option.splits prod.splits)

lemma icr_live_invoked: "invoked (snd (icr_live src ns w)) = invoked w"
  by (induction ns arbitrary: w)
     (simp_all add: dispatch_def Let_def split: reply.splits option.splits prod.splits)

lemma try_socal_invoked: "invoked (snd (try_socal src name w)) = invoked w @ [''socal'']"
  by (simp add: try_socal_def Let_def socal_live_invoked enter_def)

lemma try_accs_search_invoked: "invoked (snd (try_accs_search src name w)) = invoked w @ [''accs'']"
  by (simp add: try_accs_search_def accs_live_invoked enter_def)

lemma try_acs_invoked: "invoked (snd (try_acs src name w)) = invoked w @ [''acs'']"
  by (simp add: try_acs_def Let_def enter_def dispatch_def split: option.splits reply.splits)

lemma try_icr_invoked: "invoked (snd (try_icr src name w)) = invoked w @ [''icr'']"
  by (simp add: try_icr_def Let_def icr_live_invoked enter_def)

lemma socal_live_tag:
  "fst (socal_live src ns w) = (None, None) \<or> snd (fst (socal_live src ns w)) = Some ''socal''"
  by (induction ns arbitrary: w) (simp_all add: Let_def split: reply.splits)

lemma accs_live_tag:
  "fst (accs_live src ns w) = (None, None) \<or> fst (accs_live src ns w) = (Some ''AMBIGUOUS'', None)
     \<or> snd (fst (accs_live src ns w)) = Some ''accs''"
  by (induction ns arbitrary: w)
     (simp_all add: Let_def split: reply.splits option.splits prod.splits)

lemma icr_live_tag:
  "fst (icr_live src ns w) = (None, None) \<or> snd (fst (icr_live src ns w)) = Some ''icr''"
  by (induction ns arbitrary: w)
     (simp_all add: Let_def split: reply.splits option.splits prod.splits)

lemma found_entry_source:
  "found_entry r = Some p \<Longrightarrow> r = (None, None) \<or> snd r = Some tag \<Longrightarrow> entry_source p = Some tag"
  by (auto simp: found_entry_def split: option.splits if_splits)

lemma try_socal_source:
  "found_entry (fst (try_socal src name w)) = Some p \<Longrightarrow> entry_source p = Some ''socal''"
proof (rule found_entry_source)
  show "fst (try_socal src name w) = (None, None) \<or> snd (fst (try_socal src name w)) = Some ''socal''"
    using socal_live_tag [of src "try_names (normalize_name name) name" "enter ''socal'' w"]
    by (simp add: try_socal_def Let_def)
qed

lemma try_accs_search_source:
  assumes "found_entry (fst (try_accs_search src name w)) = Some p"
    and "fst (fst (try_accs_search src name w)) \<noteq> Some ''AMBIGUOUS''"
  shows "entry_source p = Some ''accs''"
proof (rule found_entry_source [OF assms(1)])
  show "fst (try_accs_search src name w) = (None, None) \<or>
        snd (fst (try_accs_search src name w)) = Some ''accs''"
    using accs_live_tag [of src "try_names (normalize_name name) name" "enter ''accs'' w"] assms(2)
    by (auto simp: try_accs_search_def)
qed

lemma try_acs_source:
  "found_entry (fst (try_acs src name w)) = Some p \<Longrightarrow> entry_source p = Some ''acs''"
proof (rule found_entry_source)
  show "fst (try_acs src name w) = (None, None) \<or> snd (fst (try_acs src name w)) = Some ''acs''"
    by (simp add: try_acs_def Let_def split: option.splits reply.splits)
qed

lemma try_icr_source:
  "found_entry (fst (try_icr src name w)) = Some p \<Longrightarrow> entry_source p = Some ''icr''"
proof (rule found_entry_source)
  show "fst (try_icr src name w) = (None, None) \<or> snd (fst (try_icr src name w)) = Some ''icr''"
    using icr_live_tag [of src "try_names (normalize_name name) name"]
    by (simp add: try_icr_def Let_def)
qed

text \<open>
  Claim C5 (strategy-chain fallthrough and stopping), amended. For a name processed
  live, the chain runs SoCal, ACCS search, ACS, ICR in this order and stops at the
  first source whose answer is found, or ambiguous (which only the ACCS search can
  return): no later source is entered, and an answer that is neither (not found or a
  caught error) makes the next source run. A found outcome carries the tag of the
  source that found it; an ambiguous outcome carries a reason and no source tag. In
  particular, when SoCal finds nothing and the ACCS search finds the image, the
  outcome carries the ACCS tag and neither ACS nor ICR is entered. When no source
  finds anything the outcome is missing.
\<close>

theorem strategy_chain:
  "(let r1 = try_socal src name w;
        r2 = try_accs_search src name (snd r1);
        r3 = try_acs src name (snd r2);
        r4 = try_icr src name (snd r3);
        out = process_live src name w
    in (\<forall>p. found_entry (fst r1) = Some p \<longrightarrow>
             out = (p, snd r1) \<and> entry_source p = Some ''socal'' \<and>
             invoked (snd out) = invoked w @ [''socal'']) \<and>
       (found_entry (fst r1) = None \<and> fst (fst r2) = Some ''AMBIGUOUS'' \<longrightarrow>
             out = (Ambiguous_entry (Some ''ambiguous ACCS match''), snd r2) \<and>
             entry_source (fst out) = None \<and>
             invoked (snd out) = invoked w @ [''socal'', ''accs'']) \<and>
       (\<forall>p. found_entry (fst r1) = None \<and> fst (fst r2) \<noteq> Some ''AMBIGUOUS'' \<and>
             found_entry (fst r2) = Some p \<longrightarrow>
             out = (p, snd r2) \<and> entry_source p = Some ''accs'' \<and>
             invoked (snd out) = invoked w @ [''socal'', ''accs'']) \<and>
       (\<forall>p. found_entry (fst r1) = None \<and> fst (fst r2) \<noteq> Some ''AMBIGUOUS'' \<and>
             found_entry (fst r2) = None \<and> found_entry (fst r3) = Some p \<longrightarrow>
             out = (p, snd r3) \<and> entry_source p = Some ''acs'' \<and>
             invoked (snd out) = invoked w @ [''socal'', ''accs'', ''acs'']) \<and>
       (\<forall>p. found_entry (fst r1) = None \<and> fst (fst r2) \<noteq> Some ''AMBIGUOUS'' \<and>
             found_entry (fst r2) = None \<and> found_entry (fst r3) = None \<and>
             found_entry (fst r4) = Some p \<longrightarrow>
             out = (p, snd r4) \<and> entry_source p = Some ''icr'' \<and>
             invoked (snd out) = invoked w @ [''socal'', ''accs'', ''acs'', ''icr'']) \<and>
       (found_entry (fst r1) = None \<and> fst (fst r2) \<noteq> Some ''AMBIGUOUS'' \<and>
             found_entry (fst r2) = None \<and> found_entry (fst r3) = None \<and>
             found_entry (fst r4) = None \<longrightarrow>
             out = (Missing_entry, snd r4) \<and>
             invoked (snd out) = invoked w @ [''socal'', ''accs'', ''acs'', ''icr'']))"
proof -
  define r1 where "r1 = try_socal src name w"
  define r2 where "r2 = try_accs_search src name (snd r1)"
  define r3 where "r3 = try_acs src name (snd r2)"
  define r4 where "r4 = try_icr src name (snd r3)"
  define out where "out = process_live src name w"
  have i1: "invoked (snd r1) = invoked w @ [''socal'']"
    by (simp add: r1_def try_socal_invoked)
  have i2: "invoked (snd r2) = invoked w @ [''socal'', ''accs'']"
    by (simp add: r2_def try_accs_search_invoked i1)
  have i3: "invoked (snd r3) = invoked w @ [''socal'', ''accs'', ''acs'']"
    by (simp add: r3_def try_acs_invoked i2)
  have i4: "invoked (snd r4) = invoked w @ [''socal'', ''accs'', ''acs'', ''icr'']"
    by (simp add: r4_def try_icr_invoked i3)
  have out: "out =
    (case found_entry (fst r1) of Some p \<Rightarrow> (p, snd r1)
     | None \<Rightarrow>
        if fst (fst r2) = Some ''AMBIGUOUS'' then (Ambiguous_entry (Some ''ambiguous ACCS match''), snd r2)
        else (case found_entry (fst r2) of Some p \<Rightarrow> (p, snd r2)
              | None \<Rightarrow> (case found_entry (fst r3) of Some p \<Rightarrow> (p, snd r3)
                  | None \<Rightarrow> (case found_entry (fst r4) of Some p \<Rightarrow> (p, snd r4)
                      | None \<Rightarrow> (Missing_entry, snd r4)))))"
    unfolding out_def process_live_def r1_def r2_def r3_def r4_def
    by (simp add: Let_def split_beta split: option.splits)
  have s1: "entry_source p = Some ''socal''" if "found_entry (fst r1) = Some p" for p
    using that unfolding r1_def by (rule try_socal_source)
  have s2: "entry_source p = Some ''accs''"
    if "found_entry (fst r2) = Some p" "fst (fst r2) \<noteq> Some ''AMBIGUOUS''" for p
    using that unfolding r2_def by (rule try_accs_search_source)
  have s3: "entry_source p = Some ''acs''" if "found_entry (fst r3) = Some p" for p
    using that unfolding r3_def by (rule try_acs_source)
  have s4: "entry_source p = Some ''icr''" if "found_entry (fst r4) = Some p" for p
    using that unfolding r4_def by (rule try_icr_source)
  show ?thesis
    unfolding Let_def r1_def [symmetric] r2_def [symmetric] r3_def [symmetric]
      r4_def [symmetric] out_def [symmetric]
    using s1 s2 s3 s4 by (simp add: out i1 i2 i3 i4)
qed

lemmas image_ops = try_socal_def try_accs_search_def try_acs_def try_icr_def process_live_def
  found_entry_def cached_url_def py_or_def cache_get_def truthy_def enter_def dispatch_def
  acs_page_def Let_def ICR_DELAY_def replace_spaces_def

text \<open>SoCal has no image and the ACCS search returns an image whose alt text is the name.\<close>

theorem strategy_chain_example:
  "process_live (accs_sources [(''images/Rosea.jpg'', ''rosea '')]) ''Rosea'' start_world =
     (Found_entry (ACCS_BASE_IMG @ ''images/Rosea.jpg'') (Some ''accs''),
      start_world\<lparr>time := 102,
                  net_log := [(Socal_head (SOCAL_BASE @ ''Rosea.jpg''), 100), (Accs_post ''Rosea'', 101)],
                  invoked := [''socal'', ''accs'']\<rparr>)"
  using strategy_chain [of "accs_sources [(''images/Rosea.jpg'', ''rosea '')]" "''Rosea''" start_world]
  by (simp add: image_ops string_ops accs_sources_def quiet_sources_def start_world_def)

text \<open>
  The claim as first stated fails when the chain stops at an ambiguous ACCS answer:
  the outcome then has no source tag, so it does not carry the tag of the ACCS source.
\<close>

theorem ambiguous_outcome_has_no_source:
  "fst (process_live (accs_sources [(''images/Rosea Superba.jpg'', ''Rosea Superba'')]) ''Rosea'' start_world)
     = Ambiguous_entry (Some ''ambiguous ACCS match'') \<and>
   entry_source (fst (process_live (accs_sources [(''images/Rosea Superba.jpg'', ''Rosea Superba'')])
                        ''Rosea'' start_world)) \<noteq> Some ''accs'' \<and>
   invoked (snd (process_live (accs_sources [(''images/Rosea Superba.jpg'', ''Rosea Superba'')])
                        ''Rosea'' start_world)) = [''socal'', ''accs'']"
  by (simp add: image_ops string_ops accs_sources_def quiet_sources_def start_world_def)

section \<open>Properties of the enrichment loop\<close>

lemma fetch_one_returns: "returns e \<Longrightarrow> \<exists>r. fetch_one e t u = Inr r"
proof -
  assume "returns e"
  then have "transport (http_get e t u)" by (simp add: returns_def)
  then show ?thesis
    by (cases "http_get e t u") (simp_all add: fetch_one_def Let_def)
qed

lemma probe_returns: "returns e \<Longrightarrow> \<exists>r s1. probe e a u s = Inr (r, s1)"
proof -
  assume r: "returns e"
  show ?thesis
  proof (cases "cache s u")
    case None
    let ?t = "if clock s - get_last_request_ts (checkpoint s) < delay a
              then clock s + (delay a - (clock s - get_last_request_ts (checkpoint s))) else clock s"
    from fetch_one_returns [OF r, of ?t u] obtain x where "fetch_one e ?t u = Inr x" ..
    with None show ?thesis by (simp add: probe_def Let_def)
  next
    case (Some x)
    then show ?thesis by (simp add: probe_def)
  qed
qed

lemma step_returns: "returns e \<Longrightarrow> \<exists>s1. step e a urls s = Inr s1"
proof -
  assume "returns e"
  from probe_returns [OF this, of a "urls ! idx s" s] obtain r s1
    where "probe e a (urls ! idx s) s = Inr (r, s1)" by blast
  then show ?thesis by (simp add: step_def Let_def)
qed

lemma probe_props:
  assumes "probe e a u s = Inr (r, s1)"
  shows "idx s1 = idx s" "processed_this_run s1 = processed_this_run s"
    "cp_files s1 = cp_files s" "saves s1 = saves s" "cache s1 u = Some r"
    "next_index (checkpoint s1) = next_index (checkpoint s)"
    "\<And>v x. cache s v = Some x \<Longrightarrow> cache s1 v = Some x"
    "\<And>v. v \<noteq> u \<Longrightarrow> cache s1 v = cache s v"
    "(cache s u \<noteq> None \<and> requests s1 = requests s) \<or>
     (cache s u = None \<and> (\<exists>t. requests s1 = requests s @ [(t, u)]))"
    "\<And>v x. cache s1 v = Some x \<Longrightarrow> cache s v = Some x \<or> (\<exists>t. fetch_one e t v = Inr x)"
  using assms
  by (auto simp: probe_def Let_def split: option.splits sum.splits if_splits)

lemma step_props:
  assumes "step e a urls s = Inr s1"
  shows "idx s1 = idx s + 1" "processed_this_run s1 = processed_this_run s + 1"
    "cache_file s1 = Some (cache s1)"
    "next_index (checkpoint s1) = Some (int (idx s + 1))"
    "saves s1 = saves s @ [checkpoint s1]"
    "cp_files s1 = map (\<lambda>_. Stored (checkpoint s1)) (cp_files s)"
    "cache s1 (urls ! idx s) \<noteq> None"
    "\<And>v x. cache s v = Some x \<Longrightarrow> cache s1 v = Some x"
    "\<And>v. v \<noteq> urls ! idx s \<Longrightarrow> cache s1 v = cache s v"
    "(cache s (urls ! idx s) \<noteq> None \<and> requests s1 = requests s) \<or>
     (cache s (urls ! idx s) = None \<and> (\<exists>t. requests s1 = requests s @ [(t, urls ! idx s)]))"
    "\<And>v x. cache s1 v = Some x \<Longrightarrow> cache s v = Some x \<or> (\<exists>t. fetch_one e t v = Inr x)"
proof -
  from assms obtain r s0 where p: "probe e a (urls ! idx s) s = Inr (r, s0)"
    by (auto simp: step_def Let_def split: sum.splits)
  note pp = probe_props [OF p]
  from assms p have s1: "s1 = save_url_cache (save_checkpoints e
      (s0\<lparr>processed_log := processed_log s0 @ [\<lparr>p_index = idx s, p_total = length urls, p_url = urls ! idx s, p_result = r\<rparr>],
          failed_log := (if url_status r = ''failed'' then failed_log s0 @ [\<lparr>p_index = idx s, p_total = length urls, p_url = urls ! idx s, p_result = r\<rparr>]
                                      else failed_log s0),
          idx := idx s + 1, processed_this_run := processed_this_run s0 + 1,
          checkpoint := (checkpoint s0)\<lparr>next_index := Some (int (idx s + 1))\<rparr>\<rparr>))"
    by (simp add: step_def Let_def)
  show "idx s1 = idx s + 1" by (simp add: s1 save_url_cache_def save_checkpoints_def Let_def)
  show "processed_this_run s1 = processed_this_run s + 1"
    by (simp add: s1 save_url_cache_def save_checkpoints_def Let_def pp)
  show "cache_file s1 = Some (cache s1)" by (simp add: s1 save_url_cache_def save_checkpoints_def Let_def)
  show "next_index (checkpoint s1) = Some (int (idx s + 1))"
    by (simp add: s1 save_url_cache_def save_checkpoints_def Let_def)
  show "saves s1 = saves s @ [checkpoint s1]"
    by (simp add: s1 save_url_cache_def save_checkpoints_def Let_def pp)
  show "cp_files s1 = map (\<lambda>_. Stored (checkpoint s1)) (cp_files s)"
    by (simp add: s1 save_url_cache_def save_checkpoints_def Let_def pp)
  have c: "cache s1 = cache s0" by (simp add: s1 save_url_cache_def save_checkpoints_def Let_def)
  have rq: "requests s1 = requests s0" by (simp add: s1 save_url_cache_def save_checkpoints_def Let_def)
  show "cache s1 (urls ! idx s) \<noteq> None" by (simp add: c pp)
  show "\<And>v x. cache s v = Some x \<Longrightarrow> cache s1 v = Some x" by (simp add: c pp)
  show "\<And>v. v \<noteq> urls ! idx s \<Longrightarrow> cache s1 v = cache s v" by (simp add: c pp)
  show "(cache s (urls ! idx s) \<noteq> None \<and> requests s1 = requests s) \<or>
     (cache s (urls ! idx s) = None \<and> (\<exists>t. requests s1 = requests s @ [(t, urls ! idx s)]))"
    using pp(9) by (simp add: rq)
  show "\<And>v x. cache s1 v = Some x \<Longrightarrow> cache s v = Some x \<or> (\<exists>t. fetch_one e t v = Inr x)"
    using pp(10) by (simp add: c)
qed

lemma stop_index_step:
  assumes "idx s < n" "\<not> limit_reached a s" "idx s1 = idx s + 1"
    "processed_this_run s1 = processed_this_run s + 1"
  shows "stop_index a n s1 = stop_index a n s" "idx s1 \<le> stop_index a n s"
  using assms by (auto simp: stop_index_def limit_reached_def)

lemma stop_index_done:
  assumes "idx s \<le> n" "\<not> (idx s < n \<and> \<not> limit_reached a s)"
  shows "stop_index a n s = idx s"
  using assms by (auto simp: stop_index_def limit_reached_def)

lemma enrich_loop_props:
  assumes "returns e" "idx s \<le> length urls"
  shows "\<exists>s'. enrich_loop e a urls s = Inr s' \<and>
           idx s' = stop_index a (length urls) s \<and>
           (\<forall>v x. cache s v = Some x \<longrightarrow> cache s' v = Some x) \<and>
           (\<exists>new. requests s' = requests s @ new \<and> (\<forall>q \<in> set new. cache s (snd q) = None)) \<and>
           (\<forall>i. idx s \<le> i \<and> i < idx s' \<longrightarrow> cache s' (urls ! i) \<noteq> None) \<and>
           (\<forall>v. (\<forall>i. idx s \<le> i \<and> i < idx s' \<longrightarrow> urls ! i \<noteq> v) \<longrightarrow> cache s' v = cache s v) \<and>
           (\<forall>v x. cache s' v = Some x \<longrightarrow> cache s v = Some x \<or> (\<exists>t. fetch_one e t v = Inr x)) \<and>
           map get_next_index (saves s') =
             map get_next_index (saves s) @ map int [idx s + 1 ..< idx s' + 1] \<and>
           (idx s < idx s' \<longrightarrow> cache_file s' = Some (cache s') \<and>
              cp_files s' = map (\<lambda>_. Stored (checkpoint s')) (cp_files s) \<and>
              next_index (checkpoint s') = Some (int (idx s'))) \<and>
           (idx s = idx s' \<longrightarrow> s' = s)"
  using assms
proof (induction e a urls s rule: enrich_loop.induct)
  case (1 e a urls s)
  show ?case
  proof (cases "idx s < length urls \<and> \<not> limit_reached a s")
    case False
    then have "enrich_loop e a urls s = Inr s" by (subst enrich_loop.simps) auto
    moreover have "stop_index a (length urls) s = idx s"
      using "1.prems"(2) False by (rule stop_index_done)
    ultimately show ?thesis by auto
  next
    case True
    from step_returns [OF "1.prems"(1)] obtain s1 where s1: "step e a urls s = Inr s1" by blast
    note sp = step_props [OF s1]
    from True sp(1) have le1: "idx s1 \<le> length urls" by simp
    from True have lt: "idx s < length urls" and nl: "\<not> limit_reached a s" by auto
    note st = stop_index_step [OF lt nl sp(1) sp(2)]
    from "1.IH" [OF True s1 "1.prems"(1) le1] obtain s' new where
      run: "enrich_loop e a urls s1 = Inr s'" and
      stop: "idx s' = stop_index a (length urls) s1" and
      keep: "\<forall>v x. cache s1 v = Some x \<longrightarrow> cache s' v = Some x" and
      rq: "requests s' = requests s1 @ new" "\<forall>q \<in> set new. cache s1 (snd q) = None" and
      filled: "\<forall>i. idx s1 \<le> i \<and> i < idx s' \<longrightarrow> cache s' (urls ! i) \<noteq> None" and
      outside: "\<forall>v. (\<forall>i. idx s1 \<le> i \<and> i < idx s' \<longrightarrow> urls ! i \<noteq> v) \<longrightarrow> cache s' v = cache s1 v" and
      prov: "\<forall>v x. cache s' v = Some x \<longrightarrow> cache s1 v = Some x \<or> (\<exists>t. fetch_one e t v = Inr x)" and
      sv: "map get_next_index (saves s') =
             map get_next_index (saves s1) @ map int [idx s1 + 1 ..< idx s' + 1]" and
      files: "idx s1 < idx s' \<longrightarrow> cache_file s' = Some (cache s') \<and>
              cp_files s' = map (\<lambda>_. Stored (checkpoint s')) (cp_files s1) \<and>
              next_index (checkpoint s') = Some (int (idx s'))" and
      same: "idx s1 = idx s' \<longrightarrow> s' = s1"
      by blast
    have eq: "enrich_loop e a urls s = Inr s'"
      using True s1 run by (subst enrich_loop.simps) simp
    have i1: "idx s1 \<le> idx s'" using stop st by simp
    have c1: "\<forall>v x. cache s v = Some x \<longrightarrow> cache s' v = Some x"
      using keep sp(8) by blast
    have none1: "cache s v = None" if "cache s1 v = None" for v
      using that sp(8) [of v] by (cases "cache s v") auto
    have c2: "\<exists>new. requests s' = requests s @ new \<and> (\<forall>q \<in> set new. cache s (snd q) = None)"
    proof -
      from sp(10) show ?thesis
      proof
        assume "cache s (urls ! idx s) \<noteq> None \<and> requests s1 = requests s"
        with rq none1 show ?thesis by auto
      next
        assume "cache s (urls ! idx s) = None \<and> (\<exists>t. requests s1 = requests s @ [(t, urls ! idx s)])"
        then obtain t where t: "requests s1 = requests s @ [(t, urls ! idx s)]"
          and n: "cache s (urls ! idx s) = None" by blast
        have "requests s' = requests s @ ((t, urls ! idx s) # new)" using rq t by simp
        moreover have "\<forall>q \<in> set ((t, urls ! idx s) # new). cache s (snd q) = None"
          using n rq none1 by auto
        ultimately show ?thesis by blast
      qed
    qed
    have c3: "\<forall>i. idx s \<le> i \<and> i < idx s' \<longrightarrow> cache s' (urls ! i) \<noteq> None"
    proof (intro allI impI)
      fix i assume i: "idx s \<le> i \<and> i < idx s'"
      show "cache s' (urls ! i) \<noteq> None"
      proof (cases "i = idx s")
        case True
        with sp(7) keep show ?thesis by auto
      next
        case False
        with i sp(1) filled show ?thesis by simp
      qed
    qed
    have c4: "\<forall>v. (\<forall>i. idx s \<le> i \<and> i < idx s' \<longrightarrow> urls ! i \<noteq> v) \<longrightarrow> cache s' v = cache s v"
    proof (intro allI impI)
      fix v assume v: "\<forall>i. idx s \<le> i \<and> i < idx s' \<longrightarrow> urls ! i \<noteq> v"
      with i1 sp(1) have "v \<noteq> urls ! idx s" by auto
      moreover from v sp(1) have "\<forall>i. idx s1 \<le> i \<and> i < idx s' \<longrightarrow> urls ! i \<noteq> v" by simp
      ultimately show "cache s' v = cache s v" using outside sp(9) by simp
    qed
    have c8: "\<forall>v x. cache s' v = Some x \<longrightarrow> cache s v = Some x \<or> (\<exists>t. fetch_one e t v = Inr x)"
      using prov sp(11) by blast
    have c5: "map get_next_index (saves s') =
             map get_next_index (saves s) @ map int [idx s + 1 ..< idx s' + 1]"
    proof -
      have "get_next_index (checkpoint s1) = int (idx s + 1)"
        using sp(4) by (simp add: get_next_index_def)
      moreover have "[idx s + 1 ..< idx s' + 1] = (idx s + 1) # [idx s1 + 1 ..< idx s' + 1]"
        using i1 sp(1) by (simp add: upt_conv_Cons)
      ultimately show ?thesis using sv sp(5) by simp
    qed
    have c6: "cache_file s' = Some (cache s') \<and>
              cp_files s' = map (\<lambda>_. Stored (checkpoint s')) (cp_files s) \<and>
              next_index (checkpoint s') = Some (int (idx s'))"
    proof (cases "idx s1 = idx s'")
      case True
      with same have "s' = s1" by simp
      with sp show ?thesis by simp
    next
      case False
      with i1 files sp(6) show ?thesis by simp
    qed
    have c7: "idx s \<noteq> idx s'" using i1 sp(1) by simp
    from eq stop st(1) c1 c2 c3 c4 c5 c6 c7 c8 show ?thesis by simp
  qed
qed


lemma load_best_checkpoint_returns:
  "files \<noteq> [] \<Longrightarrow> \<exists>cp. load_best_checkpoint now files tot reset = Inr cp \<and>
      (reset \<longrightarrow> cp = fresh_checkpoint now tot)"
  by (cases files)
     (auto simp: load_best_checkpoint_def first_path_def load_checkpoint_def with_defaults_def
        fresh_checkpoint_def get_next_index_def get_last_request_ts_def split: list.splits)

lemma startup_props:
  assumes "files \<noteq> []"
  shows "\<exists>s1 saved cp0. startup e a urls t0 files cfile = Inr s1 \<and>
           load_best_checkpoint (now_iso e t0) files (length urls) (\<not> resume a) = Inr cp0 \<and>
           cache s1 = load_url_cache e cfile (\<not> resume a) \<and>
           requests s1 = [] \<and> saves s1 = [saved] \<and>
           cp_files s1 = map (\<lambda>_. Stored saved) files \<and> cache_file s1 = cfile \<and>
           processed_this_run s1 = 0 \<and>
           get_next_index saved = (if resume a then get_next_index cp0 else 0) \<and>
           idx s1 = (if resume a then nat (max 0 (min (get_next_index cp0) (int (length urls)))) else 0) \<and>
           idx s1 \<le> length urls \<and>
           get_next_index (checkpoint s1) = int (idx s1)"
proof -
  from load_best_checkpoint_returns [OF assms] obtain cp0 where
    cp0: "load_best_checkpoint (now_iso e t0) files (length urls) (\<not> resume a) = Inr cp0"
    by blast
  show ?thesis
  proof (cases "resume a")
    case True
    with cp0 show ?thesis
      by (simp add: startup_def Let_def save_checkpoints_def get_next_index_def)
  next
    case False
    with cp0 show ?thesis
      by (simp add: startup_def Let_def save_checkpoints_def get_next_index_def)
  qed
qed


lemma enrich_main_props:
  assumes "files \<noteq> []" "returns e"
  shows "\<exists>s1 s' saved cp0. startup e a urls t0 files cfile = Inr s1 \<and>
           enrich_main e a urls t0 files cfile = Inr s' \<and>
           load_best_checkpoint (now_iso e t0) files (length urls) (\<not> resume a) = Inr cp0 \<and>
           get_next_index saved = (if resume a then get_next_index cp0 else 0) \<and>
           idx s1 = (if resume a then nat (max 0 (min (get_next_index cp0) (int (length urls)))) else 0) \<and>
           idx s1 \<le> length urls \<and> processed_this_run s1 = 0 \<and>
           cache s1 = load_url_cache e cfile (\<not> resume a) \<and>
           cp_files s1 = map (\<lambda>_. Stored saved) files \<and> cache_file s1 = cfile \<and>
           idx s' = stop_index a (length urls) s1 \<and>
           (\<forall>v x. cache s1 v = Some x \<longrightarrow> cache s' v = Some x) \<and>
           (\<forall>q \<in> set (requests s'). cache s1 (snd q) = None) \<and>
           (\<forall>i. idx s1 \<le> i \<and> i < idx s' \<longrightarrow> cache s' (urls ! i) \<noteq> None) \<and>
           (\<forall>v. (\<forall>i. idx s1 \<le> i \<and> i < idx s' \<longrightarrow> urls ! i \<noteq> v) \<longrightarrow> cache s' v = cache s1 v) \<and>
           (\<forall>v x. cache s' v = Some x \<longrightarrow> cache s1 v = Some x \<or> (\<exists>t. fetch_one e t v = Inr x)) \<and>
           map get_next_index (saves s') = get_next_index saved # map int [idx s1 + 1 ..< idx s' + 1] \<and>
           (idx s1 < idx s' \<longrightarrow> cache_file s' = Some (cache s') \<and>
              cp_files s' = map (\<lambda>_. Stored (checkpoint s')) files \<and>
              next_index (checkpoint s') = Some (int (idx s'))) \<and>
           (idx s1 = idx s' \<longrightarrow> s' = s1)"
proof -
  from startup_props [OF assms(1), of e a urls t0 cfile] obtain s1 saved cp0 where
    st: "startup e a urls t0 files cfile = Inr s1"
      "load_best_checkpoint (now_iso e t0) files (length urls) (\<not> resume a) = Inr cp0"
      "cache s1 = load_url_cache e cfile (\<not> resume a)"
      "requests s1 = []" "saves s1 = [saved]"
      "cp_files s1 = map (\<lambda>_. Stored saved) files" "cache_file s1 = cfile"
      "processed_this_run s1 = 0"
      "get_next_index saved = (if resume a then get_next_index cp0 else 0)"
      "idx s1 = (if resume a then nat (max 0 (min (get_next_index cp0) (int (length urls)))) else 0)"
      "idx s1 \<le> length urls"
    by blast
  from enrich_loop_props [OF assms(2) st(11), of a] obtain s' new where
    lp: "enrich_loop e a urls s1 = Inr s'"
      "idx s' = stop_index a (length urls) s1"
      "\<forall>v x. cache s1 v = Some x \<longrightarrow> cache s' v = Some x"
      "requests s' = requests s1 @ new" "\<forall>q \<in> set new. cache s1 (snd q) = None"
      "\<forall>i. idx s1 \<le> i \<and> i < idx s' \<longrightarrow> cache s' (urls ! i) \<noteq> None"
      "\<forall>v. (\<forall>i. idx s1 \<le> i \<and> i < idx s' \<longrightarrow> urls ! i \<noteq> v) \<longrightarrow> cache s' v = cache s1 v"
      "\<forall>v x. cache s' v = Some x \<longrightarrow> cache s1 v = Some x \<or> (\<exists>t. fetch_one e t v = Inr x)"
      "map get_next_index (saves s') =
         map get_next_index (saves s1) @ map int [idx s1 + 1 ..< idx s' + 1]"
      "idx s1 < idx s' \<longrightarrow> cache_file s' = Some (cache s') \<and>
              cp_files s' = map (\<lambda>_. Stored (checkpoint s')) (cp_files s1) \<and>
              next_index (checkpoint s') = Some (int (idx s'))"
      "idx s1 = idx s' \<longrightarrow> s' = s1"
    by blast
  have m: "enrich_main e a urls t0 files cfile = Inr s'"
    by (simp add: enrich_main_def st(1) lp(1))
  have rq: "\<forall>q \<in> set (requests s'). cache s1 (snd q) = None"
    using lp(4,5) st(4) by simp
  have sv: "map get_next_index (saves s') = get_next_index saved # map int [idx s1 + 1 ..< idx s' + 1]"
    using lp(9) st(5) by simp
  have fl: "idx s1 < idx s' \<longrightarrow> cache_file s' = Some (cache s') \<and>
              cp_files s' = map (\<lambda>_. Stored (checkpoint s')) files \<and>
              next_index (checkpoint s') = Some (int (idx s'))"
    using lp(10) st(6) by simp
  show ?thesis
    by (rule exI [of _ s1], rule exI [of _ s'], rule exI [of _ saved], rule exI [of _ cp0])
       (intro conjI; fact)
qed

section \<open>Cache short-circuit\<close>

lemma audit_loop_completed:
  "completed (audit_loop search ns s) n =
     (if completed s n = None \<and> n \<in> set ns then Some (search n) else completed s n)"
  by (induction ns arbitrary: s) auto

lemma audit_loop_searched:
  "set (searched (audit_loop search ns s)) = set (searched s) \<union> {n \<in> set ns. completed s n = None}"
  by (induction ns arbitrary: s) auto

text \<open>
  Claim C4 (cache short-circuit). In the ICR match audit, a name that has an entry in
  the loaded progress file is never queried and keeps that entry. In the Chinese-name
  enrichment, a URL that has a cache entry when the loop is entered (at any
  iteration) is not requested from then on and keeps that entry; and over a whole run
  of \<open>main\<close> whose probes return, a URL with an entry in the loaded cache is never
  requested and ends with that entry.
\<close>

theorem cache_short_circuit:
  "(progress0 name = Some r \<longrightarrow>
      completed (audit_main search names progress0) name = Some r \<and>
      name \<notin> set (searched (audit_main search names progress0))) \<and>
   (returns e \<and> idx s \<le> length urls \<and> cache s u = Some x \<longrightarrow>
      (\<exists>s' new. enrich_loop e a urls s = Inr s' \<and> cache s' u = Some x \<and>
          requests s' = requests s @ new \<and> u \<notin> snd ` set new)) \<and>
   (returns e \<and> files \<noteq> [] \<and> load_url_cache e cfile (\<not> resume a) u = Some x \<longrightarrow>
      (\<exists>s'. enrich_main e a urls t0 files cfile = Inr s' \<and> cache s' u = Some x \<and>
          u \<notin> snd ` set (requests s')))"
proof (intro conjI impI)
  assume "progress0 name = Some r"
  then show "completed (audit_main search names progress0) name = Some r"
    and "name \<notin> set (searched (audit_main search names progress0))"
    by (simp_all add: audit_main_def audit_loop_completed audit_loop_searched)
next
  assume h: "returns e \<and> idx s \<le> length urls \<and> cache s u = Some x"
  then have r: "returns e" and i: "idx s \<le> length urls" and c: "cache s u = Some x" by auto
  from enrich_loop_props [OF r i, of a] obtain s' new where
    "enrich_loop e a urls s = Inr s'" "\<forall>v x. cache s v = Some x \<longrightarrow> cache s' v = Some x"
    "requests s' = requests s @ new" "\<forall>q \<in> set new. cache s (snd q) = None"
    by blast
  with c show "\<exists>s' new. enrich_loop e a urls s = Inr s' \<and> cache s' u = Some x \<and>
          requests s' = requests s @ new \<and> u \<notin> snd ` set new"
    by force
next
  assume h: "returns e \<and> files \<noteq> [] \<and> load_url_cache e cfile (\<not> resume a) u = Some x"
  then have r: "returns e" and f: "files \<noteq> []"
    and c: "load_url_cache e cfile (\<not> resume a) u = Some x" by auto
  from enrich_main_props [OF f r, of a urls t0 cfile]
  obtain s1 :: enrich_state and s' :: enrich_state where
    "enrich_main e a urls t0 files cfile = Inr s'"
    "cache s1 = load_url_cache e cfile (\<not> resume a)"
    "\<forall>v x. cache s1 v = Some x \<longrightarrow> cache s' v = Some x"
    "\<forall>q \<in> set (requests s'). cache s1 (snd q) = None"
    by (elim exE conjE) (rule that, assumption+)
  with c show "\<exists>s'. enrich_main e a urls t0 files cfile = Inr s' \<and> cache s' u = Some x \<and>
          u \<notin> snd ` set (requests s')"
    by force
qed

lemma returns_example_env: "returns example_env"
  by (simp add: returns_def example_env_def)

text \<open>
  A name already in the progress file, and a resumed enrichment run whose cache file
  holds the second of three URLs.
\<close>

theorem cache_short_circuit_examples:
  "completed (audit_main example_found [''a'', ''b''] [''a'' \<mapsto> example_found ''old'']) ''a''
     = Some (example_found ''old'') \<and>
   searched (audit_main example_found [''a'', ''b''] [''a'' \<mapsto> example_found ''old'']) = [''b''] \<and>
   (\<exists>s' new. enrich_loop example_env (example_args True 0) example_urls example_state = Inr s' \<and>
         cache s' ''https://camellia.iflora.cn/b'' = Some (example_result ''cached'') \<and>
         requests s' = requests example_state @ new \<and>
         ''https://camellia.iflora.cn/b'' \<notin> snd ` set new) \<and>
   (\<exists>s'. enrich_main example_env (example_args True 0) example_urls 50 [Absent, Absent]
            (Some [''https://camellia.iflora.cn/b'' \<mapsto> example_result ''cached'']) = Inr s' \<and>
         cache s' ''https://camellia.iflora.cn/b'' = Some (example_result ''cached'') \<and>
         ''https://camellia.iflora.cn/b'' \<notin> snd ` set (requests s'))"
  using cache_short_circuit [where ?progress0.0 = "[''a'' \<mapsto> example_found ''old'']" and name = "''a''"
      and r = "example_found ''old''" and search = example_found and names = "[''a'', ''b'']"
      and e = example_env and u = "''https://camellia.iflora.cn/b''"
      and x = "example_result ''cached''" and files = "[Absent, Absent]"
      and cfile = "Some [''https://camellia.iflora.cn/b'' \<mapsto> example_result ''cached'']"
      and a = "example_args True 0" and urls = example_urls and ?t0.0 = 50
      and s = example_state]
    returns_example_env
  by (simp add: audit_main_def load_url_cache_def example_args_def example_env_def
      example_state_def example_urls_def)

section \<open>Idempotent resume\<close>















section \<open>The checkpoint cursor\<close>

lemma stop_index_le: "idx s \<le> n \<Longrightarrow> stop_index a n s \<le> n"
  by (simp add: stop_index_def)

lemma sorted_from: "sorted (x # map int [i + 1 ..< j + 1]) \<longleftrightarrow> (i < j \<longrightarrow> x \<le> int i + 1)"
proof -
  have s: "sorted (map int [i + 1 ..< j + 1])"
    by (simp add: sorted_map del: upt_Suc)
  show ?thesis
  proof (cases "i < j")
    case True
    then have mem: "Suc i \<in> set [i + 1 ..< j + 1]" by (simp del: upt_Suc)
    have "(\<forall>y \<in> set [i + 1 ..< j + 1]. x \<le> int y) \<longleftrightarrow> x \<le> int i + 1"
    proof
      assume "\<forall>y \<in> set [i + 1 ..< j + 1]. x \<le> int y"
      with mem have "x \<le> int (Suc i)" by blast
      then show "x \<le> int i + 1" by simp
    next
      assume "x \<le> int i + 1"
      then show "\<forall>y \<in> set [i + 1 ..< j + 1]. x \<le> int y" by auto
    qed
    with s True show ?thesis by (simp del: upt_Suc)
  next
    case False
    then show ?thesis by simp
  qed
qed

text \<open>
  What holds of the checkpoint cursor over a run of \<open>main\<close> whose probes return: the
  run ends with \<open>idx\<close> within the list; the saved values of \<open>next_index\<close> never
  decrease; on a fresh run they count 0, 1, ..., N, where N is the number of units
  processed; and they lie between 0 and the number of URLs on a fresh run, or on a
  resumed run whose loaded \<open>next_index\<close> lies there.
\<close>

lemma checkpoint_saves:
  assumes f: "files \<noteq> []" and r: "returns e"
  shows "\<exists>s' cp0. enrich_main e a urls t0 files cfile = Inr s' \<and>
           load_best_checkpoint (now_iso e t0) files (length urls) (\<not> resume a) = Inr cp0 \<and>
           idx s' \<le> length urls \<and>
           sorted (map get_next_index (saves s')) \<and>
           (\<not> resume a \<longrightarrow> map get_next_index (saves s') = map int [0 ..< idx s' + 1] \<and>
              idx s' = (if max_urls a > 0 then min (length urls) (nat (max_urls a)) else length urls)) \<and>
           (\<not> resume a \<or> (0 \<le> get_next_index cp0 \<and> get_next_index cp0 \<le> int (length urls)) \<longrightarrow>
              (\<forall>x \<in> set (map get_next_index (saves s')). 0 \<le> x \<and> x \<le> int (length urls)))"
proof -
  from enrich_main_props [OF f r, of a urls t0 cfile]
  obtain s1 :: enrich_state and s' :: enrich_state and saved cp0 where
    m: "enrich_main e a urls t0 files cfile = Inr s'" and
    l: "load_best_checkpoint (now_iso e t0) files (length urls) (\<not> resume a) = Inr cp0" and
    sv0: "get_next_index saved = (if resume a then get_next_index cp0 else 0)" and
    i1: "idx s1 = (if resume a then nat (max 0 (min (get_next_index cp0) (int (length urls)))) else 0)" and
    le1: "idx s1 \<le> length urls" and
    p1: "processed_this_run s1 = 0" and
    st: "idx s' = stop_index a (length urls) s1" and
    sv: "map get_next_index (saves s') = get_next_index saved # map int [idx s1 + 1 ..< idx s' + 1]"
    by (elim exE conjE) (rule that, assumption+)
  have le': "idx s' \<le> length urls" using st le1 by (simp add: stop_index_le)
  have srt: "sorted (map get_next_index (saves s'))"
    unfolding sv sorted_from using sv0 i1 le' by auto
  have fresh: "map get_next_index (saves s') = map int [0 ..< idx s' + 1] \<and>
      idx s' = (if max_urls a > 0 then min (length urls) (nat (max_urls a)) else length urls)"
    if "\<not> resume a"
  proof -
    from that i1 sv0 have z: "idx s1 = 0" "get_next_index saved = 0" by simp_all
    have "[0 ..< idx s' + 1] = 0 # [1 ..< idx s' + 1]" by (simp add: upt_conv_Cons)
    then have "map int [0 ..< idx s' + 1] = 0 # map int [0 + 1 ..< idx s' + 1]" by simp
    with sv z have "map get_next_index (saves s') = map int [0 ..< idx s' + 1]" by simp
    moreover from st z p1
    have "idx s' = (if max_urls a > 0 then min (length urls) (nat (max_urls a)) else length urls)"
      by (simp add: stop_index_def)
    ultimately show ?thesis by simp
  qed
  have range: "\<forall>x \<in> set (map get_next_index (saves s')). 0 \<le> x \<and> x \<le> int (length urls)"
    if "\<not> resume a \<or> (0 \<le> get_next_index cp0 \<and> get_next_index cp0 \<le> int (length urls))"
  proof -
    from that sv0 have "0 \<le> get_next_index saved \<and> get_next_index saved \<le> int (length urls)"
      by auto
    moreover have "\<forall>x \<in> set (map int [idx s1 + 1 ..< idx s' + 1]). 0 \<le> x \<and> x \<le> int (length urls)"
      using le' by auto
    ultimately show ?thesis unfolding sv by simp
  qed
  from m l le' srt fresh range show ?thesis by blast
qed

text \<open>
  Claim C6 (checkpoint cursor invariant and monotonicity) fails in its first part on
  a resumed run whose loaded checkpoint lies beyond the end of the URL list (the
  dataset lost URLs since the checkpoint was written). \<open>main\<close> saves the checkpoint
  before it clamps \<open>next_index\<close>: with three URLs and a mirror at index 5, both
  mirrors are rewritten with \<open>next_index\<close> 5 and \<open>total_urls\<close> 3, the loop has
  nothing left to do, and no later save corrects them.
\<close>

theorem stale_checkpoint_saved_out_of_range:
  "(case enrich_main example_env (example_args True 0) example_urls 50
           [Stored (cp_at 5 ''2025-12-01T08:00:00+00:00''), Absent] None of
      Inl x \<Rightarrow> False
    | Inr s \<Rightarrow>
        map get_next_index (saves s) = [5] \<and>
        map total_urls (saves s) = [Some 3] \<and>
        cp_files s = [Stored (last (saves s)), Stored (last (saves s))] \<and>
        idx s = 3 \<and> requests s = [])"
  by (simp add: enrich_main_def startup_def load_best_checkpoint_def load_url_cache_def
      save_checkpoints_def with_defaults_def get_next_index_def get_last_request_ts_def
      example_args_def example_urls_def example_env_def cp_at_def Let_def enrich_loop.simps)

section \<open>Request spacing\<close>

lemma spaced_snoc:
  "spaced d (ts @ [t]) \<longleftrightarrow> spaced d ts \<and> (ts \<noteq> [] \<longrightarrow> last ts + d \<le> t)"
  by (induction d ts rule: spaced.induct) auto

lemma probe_paced:
  assumes p: "probe e a u s = Inr (r, s1)" and lat: "\<forall>t u. 0 \<le> latency e t u"
    and inv: "paced a s"
  shows "paced a s1"
proof (cases "cache s u")
  case (Some x)
  with p have "s1 = s" by (simp add: probe_def)
  with inv show ?thesis by simp
next
  case None
  define t where "t = (if clock s - get_last_request_ts (checkpoint s) < delay a
      then clock s + (delay a - (clock s - get_last_request_ts (checkpoint s))) else clock s)"
  have t: "get_last_request_ts (checkpoint s) + delay a \<le> t" by (simp add: t_def)
  from p None have s1: "s1 = s\<lparr>clock := t + latency e t u,
      checkpoint := (checkpoint s)\<lparr>last_request_ts := Some (t + latency e t u)\<rparr>,
      cache := (cache s)(u \<mapsto> r), requests := requests s @ [(t, u)]\<rparr>"
    by (auto simp: probe_def Let_def t_def split: sum.splits)
  have "spaced (delay a) (map fst (requests s) @ [t])"
    unfolding spaced_snoc using inv t by (auto simp: paced_def last_map)
  moreover have "t \<le> t + latency e t u" using lat by simp
  ultimately show ?thesis by (simp add: paced_def s1 get_last_request_ts_def)
qed

lemma step_paced:
  assumes st: "step e a urls s = Inr s1" and lat: "\<forall>t u. 0 \<le> latency e t u"
    and inv: "paced a s"
  shows "paced a s1"
proof -
  from st obtain r s0 where p: "probe e a (urls ! idx s) s = Inr (r, s0)"
    by (auto simp: step_def Let_def split: sum.splits)
  from probe_paced [OF p lat inv] have "paced a s0" .
  moreover from st p have "requests s1 = requests s0"
    "get_last_request_ts (checkpoint s1) = get_last_request_ts (checkpoint s0)"
    by (auto simp: step_def Let_def save_url_cache_def save_checkpoints_def get_last_request_ts_def)
  ultimately show ?thesis by (simp add: paced_def)
qed

lemma enrich_loop_paced:
  assumes "enrich_loop e a urls s = Inr s'" "\<forall>t u. 0 \<le> latency e t u" "paced a s"
  shows "paced a s'"
  using assms
proof (induction e a urls s rule: enrich_loop.induct)
  case (1 e a urls s)
  show ?case
  proof (cases "idx s < length urls \<and> \<not> limit_reached a s")
    case False
    with "1.prems"(1) have "s' = s" by (subst (asm) enrich_loop.simps) auto
    with "1.prems"(3) show ?thesis by simp
  next
    case True
    with "1.prems"(1) obtain s1 where s1: "step e a urls s = Inr s1"
      and run: "enrich_loop e a urls s1 = Inr s'"
      by (subst (asm) enrich_loop.simps) (auto split: sum.splits)
    from step_paced [OF s1 "1.prems"(2,3)] have "paced a s1" .
    from "1.IH" [OF True s1 run "1.prems"(2) this] show ?thesis .
  qed
qed

text \<open>
  In the Chinese-name enrichment the spacing holds: when requests take no negative
  time, any two consecutive requests of a run of \<open>main\<close> are dispatched at least
  \<open>delay\<close> apart.
\<close>

lemma enrich_main_spaced:
  assumes f: "files \<noteq> []" and r: "returns e" and lat: "\<forall>t u. 0 \<le> latency e t u"
  shows "\<exists>s'. enrich_main e a urls t0 files cfile = Inr s' \<and>
           spaced (delay a) (map fst (requests s'))"
proof -
  from startup_props [OF f, of e a urls t0 cfile]
  obtain s1 :: enrich_state where s1: "startup e a urls t0 files cfile = Inr s1"
    and rq: "requests s1 = []" and le: "idx s1 \<le> length urls"
    by auto
  from enrich_loop_props [OF r le, of a] obtain s' where run: "enrich_loop e a urls s1 = Inr s'"
    by blast
  have "paced a s1" by (simp add: paced_def rq)
  from enrich_loop_paced [OF run lat this] have "paced a s'" .
  with s1 run show ?thesis by (auto simp: enrich_main_def paced_def)
qed

text \<open>
  Claim C3 (rate-limit minimum spacing) fails for \<open>try_icr\<close>, which sleeps once
  before its loop over the names to try and then sends one request per name. For a
  name that \<open>normalize_name\<close> changes, when the first answer has no photo the second
  request leaves as soon as the first has returned: here one second after it, against
  a delay of eight, both when \<open>try_icr\<close> is called alone and inside the loop of
  \<open>main\<close>.
\<close>

theorem icr_variants_not_spaced:
  "net_log (snd (try_icr quiet_sources ''Aaron'S Ruby'' start_world)) =
     [(Icr_get ''Aaron's Ruby'', 100), (Icr_get ''Aaron'S Ruby'', 101)] \<and>
   \<not> spaced ICR_DELAY (map snd (net_log (snd (try_icr quiet_sources ''Aaron'S Ruby'' start_world)))) \<and>
   filter (\<lambda>q. \<exists>n. fst q = Icr_get n)
     (net_log (outside (image_loop quiet_sources [''Aaron'S Ruby''] empty_image_state))) =
     [(Icr_get ''Aaron's Ruby'', 104), (Icr_get ''Aaron'S Ruby'', 105)]"
  by (simp add: image_ops string_ops quiet_sources_def start_world_def empty_image_state_def)

end
